theory Spec2Isabelle
  imports Main "HOL-Library.Word"
begin

unbundle bit_operations_syntax

section \<open>Serialization streams (Include/Core/Serialization.h)\<close>

text \<open>
  \<^verbatim>\<open>FatalSerializationException\<close> carries its message. A function of the source that may
  throw returns a pair: the exception or the returned value, and the stream as the call left it.
\<close>

datatype exception = FatalSerializationException string

type_synonym uint8 = "8 word"

text \<open>
  \<^verbatim>\<open>ArrayOutputStream\<close>: the vector \<^verbatim>\<open>bytes\<close> and the cursor \<^verbatim>\<open>next\<close>, kept as the index
  \<^verbatim>\<open>next - bytes.data()\<close>. The pointer \<^verbatim>\<open>end\<close> is \<^verbatim>\<open>bytes.data() + bytes.size()\<close> after every
  \<^verbatim>\<open>extendBuffer\<close>, and both pointers are null over the empty vector at construction, so \<^verbatim>\<open>end\<close>
  is the index \<open>length bytes\<close> throughout.
\<close>

record ArrayOutputStream =
  bytes :: "uint8 list"
  nextIndex :: nat

definition newArrayOutputStream :: ArrayOutputStream where
  "newArrayOutputStream = \<lparr> bytes = [], nextIndex = 0 \<rparr>"

text \<open>\<^verbatim>\<open>std::vector::resize\<close>: truncates, or appends value-initialised (zero) bytes.\<close>

definition resize :: "nat \<Rightarrow> uint8 list \<Rightarrow> uint8 list" where
  "resize n xs = take n xs @ replicate (n - length xs) 0"

definition extendBuffer :: "nat \<Rightarrow> ArrayOutputStream \<Rightarrow> ArrayOutputStream" where
  "extendBuffer numBytes s =
     s \<lparr> bytes := resize (max (nextIndex s + numBytes) (length (bytes s) * 7 div 5 + 32)) (bytes s) \<rparr>"

text \<open>\<^verbatim>\<open>OutputStream::advance\<close>: returns the previous cursor and the advanced stream.\<close>

definition advance_out :: "nat \<Rightarrow> ArrayOutputStream \<Rightarrow> nat \<times> ArrayOutputStream" where
  "advance_out numBytes s =
     (let s1 = (if nextIndex s + numBytes > length (bytes s) then extendBuffer numBytes s else s)
      in (nextIndex s1, s1 \<lparr> nextIndex := nextIndex s1 + numBytes \<rparr>))"

text \<open>The statement \<^verbatim>\<open>*stream.advance(1) = outputByte\<close>.\<close>

definition write_byte :: "uint8 \<Rightarrow> ArrayOutputStream \<Rightarrow> ArrayOutputStream" where
  "write_byte b s = (case advance_out 1 s of (p, s') \<Rightarrow> s' \<lparr> bytes := (bytes s')[p := b] \<rparr>)"

text \<open>\<^verbatim>\<open>ArrayOutputStream::getBytes\<close>: the vector cut at the cursor.\<close>

definition getBytes :: "ArrayOutputStream \<Rightarrow> uint8 list" where
  "getBytes s = resize (nextIndex s) (bytes s)"

text \<open>
  A pointer is the address it holds, and \<^verbatim>\<open>size_t\<close> is 64 bits wide: the sum
  \<^verbatim>\<open>next + numBytes\<close> and the comparison with \<^verbatim>\<open>end\<close> are those of the addresses, modulo
  \<open>2 ^ 64\<close>. \<^verbatim>\<open>MemoryInputStream\<close> holds the two pointers \<^verbatim>\<open>next\<close> and \<^verbatim>\<open>end\<close>; the memory they
  point into is not the stream's own, \<open>memory a\<close> is the byte at the address \<open>a\<close>.
\<close>

type_synonym pointer = "64 word"

type_synonym size_t = "64 word"

record MemoryInputStream =
  memory :: "pointer \<Rightarrow> uint8"
  "next" :: pointer
  "end" :: pointer

text \<open>\<^verbatim>\<open>MemoryInputStream(begin, numBytes)\<close>, which is \<^verbatim>\<open>InputStream(begin, begin + numBytes)\<close>.\<close>

definition newMemoryInputStream :: "(pointer \<Rightarrow> uint8) \<Rightarrow> pointer \<Rightarrow> size_t \<Rightarrow> MemoryInputStream" where
  "newMemoryInputStream mem begin numBytes = \<lparr> memory = mem, next = begin, end = begin + numBytes \<rparr>"

definition capacity :: "MemoryInputStream \<Rightarrow> size_t" where
  "capacity s = end s - next s"

definition getMoreData :: "size_t \<Rightarrow> exception" where
  "getMoreData numBytes = FatalSerializationException ''expected data but found end of stream''"

definition advance :: "size_t \<Rightarrow> MemoryInputStream \<Rightarrow> (exception + pointer) \<times> MemoryInputStream" where
  "advance numBytes s =
     (if next s + numBytes > end s then (Inl (getMoreData numBytes), s)
      else (Inr (next s), s \<lparr> next := next s + numBytes \<rparr>))"


section \<open>LEB128 (serializeVarInt)\<close>

text \<open>
  The template parameter \<^verbatim>\<open>Value\<close> is an integer type of \<^verbatim>\<open>sizeof(Value)\<close> bytes: a word of
  \<open>8 * LENGTH('n)\<close> bits, read as two's complement when \<^verbatim>\<open>std::is_signed<Value>\<close> (the flag
  \<open>sg\<close>) and as unsigned otherwise.
\<close>

type_synonym 'n Value = "'n bit0 bit0 bit0 word"

definition ival :: "bool \<Rightarrow> 'a::len word \<Rightarrow> int" where
  "ival sg v = (if sg then sint v else uint v)"

text \<open>\<^verbatim>\<open>value >>= 7\<close>: arithmetic on a signed type, logical on an unsigned one.\<close>

definition shr :: "bool \<Rightarrow> nat \<Rightarrow> 'a::len word \<Rightarrow> 'a word" where
  "shr sg n v = (if sg then signed_drop_bit n v else drop_bit n v)"

text \<open>\<^verbatim>\<open>std::to_string\<close> of an integer: its decimal digits, with a minus sign when negative.\<close>

definition digit :: "nat \<Rightarrow> char" where
  "digit d = ''0123456789'' ! d"

fun digits :: "nat \<Rightarrow> string" where
  "digits n = (if n < 10 then [digit n] else digits (n div 10) @ [digit (n mod 10)])"

declare digits.simps [simp del]

definition to_string :: "int \<Rightarrow> string" where
  "to_string i = (if i < 0 then CHR ''-'' # digits (nat (- i)) else digits (nat i))"

definition out_of_range :: "bool \<Rightarrow> 'a::len word \<Rightarrow> 'a word \<Rightarrow> 'a word \<Rightarrow> exception" where
  "out_of_range sg minValue v maxValue =
     FatalSerializationException (''out-of-range value: '' @ to_string (ival sg minValue) @ ''<=''
        @ to_string (ival sg v) @ ''<='' @ to_string (ival sg maxValue))"

text \<open>
  The value assigned to \<^verbatim>\<open>more\<close> in the loop, from the shifted value and the group just
  taken.
\<close>

definition continues :: "bool \<Rightarrow> 'a::len word \<Rightarrow> uint8 \<Rightarrow> bool" where
  "continues sg v outputByte =
     (if sg
      then (v \<noteq> 0 \<and> v \<noteq> - 1) \<or> (sint v \<ge> 0 \<and> outputByte AND 0x40 \<noteq> 0)
           \<or> (sint v < 0 \<and> outputByte AND 0x40 = 0)
      else v \<noteq> 0)"

definition vmeasure :: "bool \<Rightarrow> 'a::len word \<Rightarrow> nat" where
  "vmeasure sg v = (if sg then nat \<bar>sint v\<bar> else unat v)"

lemma low7_bit6: "((ucast (v AND 127 :: 'a::len word) :: uint8) AND 0x40 \<noteq> 0) = bit v 6"
proof -
  have "(ucast (v AND 127) :: uint8) AND 2 ^ 6 = 0 \<longleftrightarrow> \<not> bit (ucast (v AND 127) :: uint8) 6"
    by (rule and_exp_eq_0_iff_not_bit)
  moreover have "bit (ucast (v AND 127) :: uint8) 6 = bit v 6"
    by (auto simp add: bit_simps dest: bit_imp_le_length)
  ultimately show ?thesis by simp
qed

lemma Value_len: "8 \<le> LENGTH('n::len bit0 bit0 bit0)"
proof -
  have "0 < LENGTH('n)" by simp
  then have "1 \<le> LENGTH('n)" by linarith
  then show ?thesis by simp
qed

lemma more_signed_int:
  fixes v :: "'n::len Value"
  shows "continues True (signed_drop_bit 7 v) (ucast (v AND 127)) \<longleftrightarrow>
     (sint v div 128 \<noteq> 0 \<and> sint v div 128 \<noteq> - 1) \<or> (sint v div 128 \<ge> 0 \<and> bit (sint v) 6)
      \<or> (sint v div 128 < 0 \<and> \<not> bit (sint v) 6)"
proof -
  let ?v' = "signed_drop_bit 7 v"
  have len: "7 \<le> LENGTH('n bit0 bit0 bit0)" using Value_len [where 'n = 'n] by linarith
  have x': "sint ?v' = sint v div 128" by (simp add: sint_signed_drop_bit_eq drop_bit_eq_div)
  have b6: "bit v 6 = bit (sint v) 6" using len by (simp add: bit_sint_iff min_def)
  have z: "?v' = 0 \<longleftrightarrow> sint ?v' = 0" using word_eq_iff_signed [of ?v' 0] by simp
  have m: "?v' = - 1 \<longleftrightarrow> sint ?v' = - 1" using word_eq_iff_signed [of ?v' "- 1"] by simp
  have nb: "((ucast (v AND 127) :: uint8) AND 0x40 = 0) = (\<not> bit v 6)"
    using low7_bit6 [of v] by blast
  show ?thesis
    unfolding continues_def if_True low7_bit6 nb z m b6 x' by blast
qed

lemma bit6_int: "bit (x::int) 6 \<longleftrightarrow> 64 \<le> x mod 128"
proof -
  have b: "bit x 6 = (x div 64 mod 2 = 1)"
    by (simp add: bit_iff_odd_drop_bit drop_bit_eq_div odd_iff_mod_2_eq_one)
  have "x mod (64 * 2) = 64 * (x div 64 mod 2) + x mod 64" by (rule zmod_zmult2_eq) simp
  then have d: "x mod 128 = 64 * (x div 64 mod 2) + x mod 64" by simp
  have "0 \<le> x mod 64" "x mod 64 < 64" "0 \<le> x div 64 mod 2" "x div 64 mod 2 < 2" by simp_all
  then show ?thesis unfolding b d by linarith
qed

lemma int_shrink:
  fixes x :: int
  assumes "(x div 128 \<noteq> 0 \<and> x div 128 \<noteq> - 1) \<or> (x div 128 \<ge> 0 \<and> bit x 6) \<or> (x div 128 < 0 \<and> \<not> bit x 6)"
  shows "\<bar>x div 128\<bar> < \<bar>x\<bar>"
proof -
  define q r where "q = x div 128" and "r = x mod 128"
  have x: "x = 128 * q + r" and r: "0 \<le> r" "r < 128" by (simp_all add: q_def r_def)
  from assms have "(q \<noteq> 0 \<and> q \<noteq> - 1) \<or> (q \<ge> 0 \<and> 64 \<le> r) \<or> (q < 0 \<and> r < 64)"
    unfolding bit6_int q_def r_def by linarith
  then have "\<bar>q\<bar> < \<bar>128 * q + r\<bar>" using r by linarith
  then have "\<bar>q\<bar> < \<bar>x\<bar>" using x by simp
  then show ?thesis by (simp add: q_def)
qed

lemma more_decreases:
  fixes v :: "'n::len Value"
  assumes "continues sg (shr sg 7 v) (ucast (v AND 127))"
  shows "vmeasure sg (shr sg 7 v) < vmeasure sg v"
proof (cases sg)
  case False
  with assms have nz: "drop_bit 7 v \<noteq> 0" by (simp add: continues_def shr_def)
  have "unat (drop_bit 7 v) = unat v div 2 ^ 7"
    by (subst unat_drop_bit_eq) (simp add: drop_bit_eq_div)
  moreover from nz have "unat (drop_bit 7 v) \<noteq> 0" by (simp add: unat_eq_0)
  ultimately show ?thesis using False by (simp add: vmeasure_def shr_def)
next
  case True
  have x': "sint (signed_drop_bit 7 v) = sint v div 128"
    by (simp add: sint_signed_drop_bit_eq drop_bit_eq_div)
  from assms True have "continues True (signed_drop_bit 7 v) (ucast (v AND 127))"
    by (simp add: shr_def)
  then have "\<bar>sint v div 128\<bar> < \<bar>sint v\<bar>"
    unfolding more_signed_int by (rule int_shrink)
  then show ?thesis using True by (simp add: vmeasure_def shr_def x')
qed

text \<open>The body of \<^verbatim>\<open>while(more)\<close> in the encoder, on the stream.\<close>

function serializeVarInt_loop :: "bool \<Rightarrow> 'n::len Value \<Rightarrow> ArrayOutputStream \<Rightarrow> ArrayOutputStream" where
  "serializeVarInt_loop sg v stream =
     (if continues sg (shr sg 7 v) (ucast (v AND 127))
      then serializeVarInt_loop sg (shr sg 7 v) (write_byte (ucast (v AND 127) OR 0x80) stream)
      else write_byte (ucast (v AND 127)) stream)"
  by pat_completeness auto
termination
  by (relation "measure (\<lambda>(sg, v, stream). vmeasure sg v)") (simp_all add: more_decreases)

declare serializeVarInt_loop.simps [simp del]

text \<open>\<^verbatim>\<open>serializeVarInt(OutputStream&, ...)\<close>; the template parameter \<^verbatim>\<open>maxBits\<close> is not used.\<close>

definition serializeVarInt_out ::
  "bool \<Rightarrow> nat \<Rightarrow> ArrayOutputStream \<Rightarrow> 'n::len Value \<Rightarrow> 'n Value \<Rightarrow> 'n Value
     \<Rightarrow> (exception + unit) \<times> ArrayOutputStream" where
  "serializeVarInt_out sg maxBits stream inValue minValue maxValue =
     (if ival sg inValue < ival sg minValue \<or> ival sg inValue > ival sg maxValue
      then (Inl (out_of_range sg minValue inValue maxValue), stream)
      else (Inr (), serializeVarInt_loop sg inValue stream))"

text \<open>
  The decoder. \<^verbatim>\<open>maxBytes\<close> and the three masks are the enums of the source; the masks are
  taken at eight bits, the width at which the source compares them with a byte.
\<close>

definition maxBytes :: "nat \<Rightarrow> nat" where
  "maxBytes maxBits = (maxBits + 6) div 7"

definition numUsedBitsInHighestByte :: "nat \<Rightarrow> nat" where
  "numUsedBitsInHighestByte maxBits = maxBits - (maxBytes maxBits - 1) * 7"

definition highestByteUsedBitmask :: "nat \<Rightarrow> uint8" where
  "highestByteUsedBitmask maxBits = push_bit (numUsedBitsInHighestByte maxBits) 1 - 1"

definition highestByteSignedBitmask :: "nat \<Rightarrow> uint8" where
  "highestByteSignedBitmask maxBits = NOT (highestByteUsedBitmask maxBits) AND NOT 0x80"

text \<open>The conversion of an \<^verbatim>\<open>int\<close> to \<^verbatim>\<open>int8\<close>, the type of \<^verbatim>\<open>signExtendShift\<close>.\<close>

definition int8 :: "int \<Rightarrow> int" where
  "int8 i = signed_take_bit 7 i"

text \<open>
  The first loop of the decoder: \<open>buf\<close> is the array \<^verbatim>\<open>bytes\<close>. It returns the array, \<^verbatim>\<open>numBytes\<close>
  and \<^verbatim>\<open>signExtendShift\<close>, or the exception of \<^verbatim>\<open>advance\<close>.
\<close>

function readLoop ::
  "nat \<Rightarrow> uint8 list \<Rightarrow> nat \<Rightarrow> int \<Rightarrow> MemoryInputStream
     \<Rightarrow> (exception + uint8 list \<times> nat \<times> int) \<times> MemoryInputStream" where
  "readLoop mxBytes buf numBytes signExtendShift stream =
     (if numBytes < mxBytes
      then (case advance 1 stream of
              (Inl e, stream') \<Rightarrow> (Inl e, stream')
            | (Inr p, stream') \<Rightarrow>
                if memory stream' p AND 0x80 = 0
                then (Inr (buf[numBytes := memory stream' p], numBytes + 1, int8 (signExtendShift - 7)),
                      stream')
                else readLoop mxBytes (buf[numBytes := memory stream' p]) (numBytes + 1)
                       (int8 (signExtendShift - 7)) stream')
      else (Inr (buf, numBytes, signExtendShift), stream))"
  by pat_completeness auto
termination
  by (relation "measure (\<lambda>(mxBytes, buf, numBytes, signExtendShift, stream). mxBytes - numBytes)")
    simp_all

declare readLoop.simps [simp del]

text \<open>The test on \<^verbatim>\<open>bytes[maxBytes-1]\<close> that throws "invalid final byte".\<close>

definition invalidFinalByte :: "bool \<Rightarrow> nat \<Rightarrow> uint8 list \<Rightarrow> bool" where
  "invalidFinalByte sg maxBits buf =
     ((buf ! (maxBytes maxBits - 1)) AND NOT (highestByteUsedBitmask maxBits) \<noteq> 0
      \<and> ((buf ! (maxBytes maxBits - 1)) AND NOT (highestByteUsedBitmask maxBits)
            \<noteq> highestByteSignedBitmask maxBits \<or> \<not> sg))"

text \<open>
  The second loop: \<^verbatim>\<open>value |= Value(bytes[byteIndex] & ~0x80) << (byteIndex * 7)\<close>. The shift is
  taken in the value's own width; the source shifts in \<^verbatim>\<open>int\<close> when \<^verbatim>\<open>Value\<close> is narrower and
  truncates on assignment, which is the same while the shift count is below 32.
\<close>

definition decodeBytes :: "nat \<Rightarrow> uint8 list \<Rightarrow> 'a::len word" where
  "decodeBytes mxBytes buf =
     fold (\<lambda>byteIndex v. v OR push_bit (byteIndex * 7) (ucast ((buf ! byteIndex) AND NOT 0x80)))
       [0..<mxBytes] 0"

text \<open>
  \<^verbatim>\<open>(value << signExtendShift) >> signExtendShift\<close> on a signed \<^verbatim>\<open>Value\<close>. A type narrower than
  \<^verbatim>\<open>int\<close> (32 bits) is promoted: both shifts happen at 32 bits on the sign-extended value, and
  the assignment truncates.
\<close>

definition signExtend :: "nat \<Rightarrow> 'a::len word \<Rightarrow> 'a word" where
  "signExtend s v =
     (if LENGTH('a) < 32 then ucast (signed_drop_bit s (push_bit s (scast v :: 32 word)))
      else signed_drop_bit s (push_bit s v))"

definition invalidFinalByteException :: exception where
  "invalidFinalByteException = FatalSerializationException ''Invalid LEB encoding: invalid final byte''"

text \<open>\<^verbatim>\<open>serializeVarInt(InputStream&, ...)\<close>: the decoded \<^verbatim>\<open>value\<close> is the result.\<close>

definition serializeVarInt_in ::
  "bool \<Rightarrow> nat \<Rightarrow> MemoryInputStream \<Rightarrow> 'n::len Value \<Rightarrow> 'n Value
     \<Rightarrow> (exception + 'n Value) \<times> MemoryInputStream" where
  "serializeVarInt_in sg maxBits stream minValue maxValue =
     (case readLoop (maxBytes maxBits) (replicate (maxBytes maxBits) 0) 0
             (int8 (int (LENGTH('n)) * 8)) stream of
        (Inl e, stream') \<Rightarrow> (Inl e, stream')
      | (Inr (buf, numBytes, signExtendShift), stream') \<Rightarrow>
          if invalidFinalByte sg maxBits buf then (Inl invalidFinalByteException, stream')
          else (let v = decodeBytes (maxBytes maxBits) buf;
                    v' = (if sg \<and> signExtendShift > 0 then signExtend (nat signExtendShift) v else v)
                in if ival sg v' < ival sg minValue \<or> ival sg v' > ival sg maxValue
                   then (Inl (out_of_range sg minValue v' maxValue), stream')
                   else (Inr v', stream')))"

text \<open>
  The helpers. \<^verbatim>\<open>Value\<close> is the caller's type; the bounds are converted to it, as the numerals
  of a word type are.
\<close>

definition serializeVarUInt1_out where
  "serializeVarUInt1_out sg stream v = serializeVarInt_out sg 1 stream v 0 1"
definition serializeVarUInt7_out where
  "serializeVarUInt7_out sg stream v = serializeVarInt_out sg 7 stream v 0 127"
definition serializeVarUInt32_out where
  "serializeVarUInt32_out sg stream v = serializeVarInt_out sg 32 stream v 0 0xFFFFFFFF"
definition serializeVarUInt64_out where
  "serializeVarUInt64_out sg stream v = serializeVarInt_out sg 64 stream v 0 0xFFFFFFFFFFFFFFFF"
definition serializeVarInt32_out where
  "serializeVarInt32_out sg stream v = serializeVarInt_out sg 32 stream v (- 0x80000000) 0x7FFFFFFF"
definition serializeVarInt64_out where
  "serializeVarInt64_out sg stream v =
     serializeVarInt_out sg 64 stream v (- 0x8000000000000000) 0x7FFFFFFFFFFFFFFF"

definition serializeVarUInt1_in where
  "serializeVarUInt1_in sg stream = serializeVarInt_in sg 1 stream 0 1"
definition serializeVarUInt7_in where
  "serializeVarUInt7_in sg stream = serializeVarInt_in sg 7 stream 0 127"
definition serializeVarUInt32_in where
  "serializeVarUInt32_in sg stream = serializeVarInt_in sg 32 stream 0 0xFFFFFFFF"
definition serializeVarUInt64_in where
  "serializeVarUInt64_in sg stream = serializeVarInt_in sg 64 stream 0 0xFFFFFFFFFFFFFFFF"
definition serializeVarInt32_in where
  "serializeVarInt32_in sg stream = serializeVarInt_in sg 32 stream (- 0x80000000) 0x7FFFFFFF"
definition serializeVarInt64_in where
  "serializeVarInt64_in sg stream =
     serializeVarInt_in sg 64 stream (- 0x8000000000000000) 0x7FFFFFFFFFFFFFFF"

section \<open>The image memory manager (Lib/LLVMJIT/LLVMJITLoad.cpp)\<close>

text \<open>
  \<^verbatim>\<open>Uptr\<close> and \<^verbatim>\<open>uintptr_t\<close> are 64-bit; a \<^verbatim>\<open>U8*\<close> is the address it holds, the null pointer
  0. \<^verbatim>\<open>Errors::fatal\<close> does not return: a function that may call it returns the message or
  its result. The functions of \<^verbatim>\<open>Platform\<close> and the macro \<^verbatim>\<open>USE_WINDOWS_SEH\<close> are declared
  outside these files and are parameters.
\<close>

type_synonym Uptr = "64 word"

datatype fatal = Fatal string

record Platform =
  getPageSizeLog2 :: Uptr
  allocateVirtualPages :: "Uptr \<Rightarrow> Uptr"
  commitVirtualPages :: "Uptr \<Rightarrow> Uptr \<Rightarrow> bool"
  USE_WINDOWS_SEH :: bool

record Section =
  baseAddress :: Uptr
  numPages :: Uptr
  numCommittedBytes :: Uptr

record ModuleMemoryManager =
  imageBaseAddress :: Uptr
  numAllocatedImagePages :: Uptr
  isFinalized :: bool
  codeSection :: Section
  readOnlySection :: Section
  readWriteSection :: Section

text \<open>The constructor; \<^verbatim>\<open>numAllocatedImagePages\<close> is left uninitialised (\<open>u\<close>).\<close>

definition newModuleMemoryManager :: "Uptr \<Rightarrow> ModuleMemoryManager" where
  "newModuleMemoryManager u =
     \<lparr> imageBaseAddress = 0, numAllocatedImagePages = u, isFinalized = False,
       codeSection = \<lparr> baseAddress = 0, numPages = 0, numCommittedBytes = 0 \<rparr>,
       readOnlySection = \<lparr> baseAddress = 0, numPages = 0, numCommittedBytes = 0 \<rparr>,
       readWriteSection = \<lparr> baseAddress = 0, numPages = 0, numCommittedBytes = 0 \<rparr> \<rparr>"

definition align :: "Uptr \<Rightarrow> Uptr \<Rightarrow> Uptr" where
  "align sz alignment = (sz + alignment - 1) AND NOT (alignment - 1)"

definition shrAndRoundUp :: "Uptr \<Rightarrow> Uptr \<Rightarrow> Uptr" where
  "shrAndRoundUp v shift = drop_bit (unat shift) (v + push_bit (unat shift) 1 - 1)"

definition reserveAllocationSpace ::
  "Platform \<Rightarrow> ModuleMemoryManager \<Rightarrow> Uptr \<Rightarrow> 32 word \<Rightarrow> Uptr \<Rightarrow> 32 word \<Rightarrow> Uptr \<Rightarrow> 32 word
     \<Rightarrow> fatal + ModuleMemoryManager" where
  "reserveAllocationSpace P m numCodeBytes codeAlignment numReadOnlyBytes readOnlyAlignment
       numReadWriteBytes readWriteAlignment =
     (let numCodeBytes' = (if USE_WINDOWS_SEH P then numCodeBytes + 32 else numCodeBytes);
          codePages = shrAndRoundUp numCodeBytes' (getPageSizeLog2 P);
          readOnlyPages = shrAndRoundUp numReadOnlyBytes (getPageSizeLog2 P);
          readWritePages = shrAndRoundUp numReadWriteBytes (getPageSizeLog2 P);
          m' = m \<lparr> codeSection := (codeSection m) \<lparr> numPages := codePages \<rparr>,
                   readOnlySection := (readOnlySection m) \<lparr> numPages := readOnlyPages \<rparr>,
                   readWriteSection := (readWriteSection m) \<lparr> numPages := readWritePages \<rparr>,
                   numAllocatedImagePages := codePages + readOnlyPages + readWritePages \<rparr>
      in if numAllocatedImagePages m' \<noteq> 0
         then (let base = allocateVirtualPages P (numAllocatedImagePages m')
               in if base = 0 \<or> \<not> commitVirtualPages P base (numAllocatedImagePages m')
                  then Inl (Fatal ''memory allocation for JIT code failed'')
                  else Inr (m' \<lparr> imageBaseAddress := base,
                     codeSection := (codeSection m') \<lparr> baseAddress := base \<rparr>,
                     readOnlySection := (readOnlySection m')
                       \<lparr> baseAddress := base + push_bit (unat (getPageSizeLog2 P)) codePages \<rparr>,
                     readWriteSection := (readWriteSection m')
                       \<lparr> baseAddress := base + push_bit (unat (getPageSizeLog2 P)) codePages
                            + push_bit (unat (getPageSizeLog2 P)) readOnlyPages \<rparr> \<rparr>))
         else Inr m')"

text \<open>
  \<^verbatim>\<open>allocateBytes\<close> returns the allocation's address and the section. Its \<^verbatim>\<open>wavmAssert\<close>s
  (a non-null section base, a power-of-two alignment, not finalized, an aligned result) are
  preconditions and compile to nothing in a release build; they are not part of the model.
\<close>

definition allocateBytes :: "Platform \<Rightarrow> Uptr \<Rightarrow> Uptr \<Rightarrow> Section \<Rightarrow> fatal + Uptr \<times> Section" where
  "allocateBytes P numBytes alignment section =
     (let allocationBaseAddress = baseAddress section + align (numCommittedBytes section) alignment;
          section' = section \<lparr> numCommittedBytes :=
                       align (numCommittedBytes section) alignment + align numBytes alignment \<rparr>
      in if numCommittedBytes section' > push_bit (unat (getPageSizeLog2 P)) (numPages section')
         then Inl (Fatal ''didn't reserve enough space in section'')
         else Inr (allocationBaseAddress, section'))"

definition allocateCodeSection ::
  "Platform \<Rightarrow> ModuleMemoryManager \<Rightarrow> Uptr \<Rightarrow> 32 word \<Rightarrow> fatal + Uptr \<times> ModuleMemoryManager" where
  "allocateCodeSection P m numBytes alignment =
     (case allocateBytes P numBytes (ucast alignment) (codeSection m) of
        Inl e \<Rightarrow> Inl e
      | Inr (p, section') \<Rightarrow> Inr (p, m \<lparr> codeSection := section' \<rparr>))"

definition allocateDataSection ::
  "Platform \<Rightarrow> ModuleMemoryManager \<Rightarrow> Uptr \<Rightarrow> 32 word \<Rightarrow> bool
     \<Rightarrow> fatal + Uptr \<times> ModuleMemoryManager" where
  "allocateDataSection P m numBytes alignment isReadOnly =
     (case allocateBytes P numBytes (ucast alignment)
             (if isReadOnly then readOnlySection m else readWriteSection m) of
        Inl e \<Rightarrow> Inl e
      | Inr (p, section') \<Rightarrow>
          Inr (p, if isReadOnly then m \<lparr> readOnlySection := section' \<rparr>
                  else m \<lparr> readWriteSection := section' \<rparr>))"

definition getNumImageBytes :: "Platform \<Rightarrow> ModuleMemoryManager \<Rightarrow> Uptr" where
  "getNumImageBytes P m = push_bit (unat (getPageSizeLog2 P)) (numAllocatedImagePages m)"

section \<open>Loaded modules and the address index\<close>

text \<open>
  A \<^verbatim>\<open>std::map<Uptr, V>\<close> is the list of its entries in key order, with no key twice.
  \<^verbatim>\<open>upper_bound\<close> returns the first entry whose key is greater than the argument (\<open>None\<close> is
  \<^verbatim>\<open>end()\<close>), \<^verbatim>\<open>emplace\<close> inserts unless the key is present, and \<open>erase\<close> is
  \<^verbatim>\<open>erase(find(key))\<close>. The pointers \<^verbatim>\<open>JITFunction*\<close> and \<^verbatim>\<open>LoadedModule*\<close> that the maps hold
  are the records they point to.
\<close>

type_synonym 'v addressMap = "(Uptr \<times> 'v) list"

definition upper_bound :: "'v addressMap \<Rightarrow> Uptr \<Rightarrow> (Uptr \<times> 'v) option" where
  "upper_bound m address = find (\<lambda>(k, v). address < k) m"

fun emplace :: "Uptr \<Rightarrow> 'v \<Rightarrow> 'v addressMap \<Rightarrow> 'v addressMap" where
  "emplace k v [] = [(k, v)]"
| "emplace k v ((k', v') # m) =
     (if k < k' then (k, v) # (k', v') # m
      else if k = k' then (k', v') # m
      else (k', v') # emplace k v m)"

definition erase :: "Uptr \<Rightarrow> 'v addressMap \<Rightarrow> 'v addressMap" where
  "erase key m = filter (\<lambda>(k, v). k \<noteq> key) m"

record JITFunction =
  baseAddress :: Uptr
  numBytes :: Uptr
  offsetToOpIndexMap :: "(32 word \<times> 32 word) list"

record LoadedModule =
  memoryManager :: ModuleMemoryManager
  "functions" :: "JITFunction list"
  addressToFunctionMap :: "JITFunction addressMap"

text \<open>
  The end of the loop over the function symbols in the constructor of \<^verbatim>\<open>LoadedModule\<close>: the
  new function is appended to \<^verbatim>\<open>functions\<close> and entered under its end address.
\<close>

definition addFunction :: "JITFunction \<Rightarrow> LoadedModule \<Rightarrow> LoadedModule" where
  "addFunction jitFunction m =
     m \<lparr> functions := functions m @ [jitFunction],
         addressToFunctionMap :=
           emplace (baseAddress jitFunction + numBytes jitFunction) jitFunction (addressToFunctionMap m) \<rparr>"

text \<open>
  The process-wide state: the map, its mutex (held or not), and a log with one entry for
  every access to the map, in program order: whether the mutex was held at that access.
\<close>

record Global =
  addressToModuleMap :: "LoadedModule addressMap"
  addressToModuleMapMutex :: bool
  accessLog :: "bool list"

definition lock :: "Global \<Rightarrow> Global" where
  "lock g = g \<lparr> addressToModuleMapMutex := True \<rparr>"

definition unlock :: "Global \<Rightarrow> Global" where
  "unlock g = g \<lparr> addressToModuleMapMutex := False \<rparr>"

definition access :: "Global \<Rightarrow> Global" where
  "access g = g \<lparr> accessLog := accessLog g @ [addressToModuleMapMutex g] \<rparr>"

definition imageEnd :: "Platform \<Rightarrow> LoadedModule \<Rightarrow> Uptr" where
  "imageEnd P m = imageBaseAddress (memoryManager m) + getNumImageBytes P (memoryManager m)"

text \<open>The last statement of the constructor that touches the map: no \<^verbatim>\<open>Lock\<close> is taken.\<close>

definition registerModule :: "Platform \<Rightarrow> LoadedModule \<Rightarrow> Global \<Rightarrow> Global" where
  "registerModule P m g =
     (let g1 = access g
      in g1 \<lparr> addressToModuleMap := emplace (imageEnd P m) m (addressToModuleMap g1) \<rparr>)"

text \<open>The destructor: the \<^verbatim>\<open>Lock\<close> lives to the end of the body.\<close>

definition destroyModule :: "Platform \<Rightarrow> LoadedModule \<Rightarrow> Global \<Rightarrow> Global" where
  "destroyModule P m g =
     (let g1 = lock g;
          g2 = access g1;
          g3 = g2 \<lparr> addressToModuleMap := erase (imageEnd P m) (addressToModuleMap g2) \<rparr>
      in unlock g3)"

text \<open>\<^verbatim>\<open>getJITFunctionByAddress\<close>: the \<^verbatim>\<open>Lock\<close> lives to the end of the inner block.\<close>

definition getJITFunctionByAddress :: "Global \<Rightarrow> Uptr \<Rightarrow> JITFunction option \<times> Global" where
  "getJITFunctionByAddress g address =
     (let g1 = lock g;
          g2 = access g1
      in case upper_bound (addressToModuleMap g2) address of
           None \<Rightarrow> (None, unlock g2)
         | Some (moduleKey, jitModule) \<Rightarrow>
             (let g3 = unlock g2
              in case upper_bound (addressToFunctionMap jitModule) address of
                   None \<Rightarrow> (None, g3)
                 | Some (functionKey, function) \<Rightarrow>
                     (if address \<ge> baseAddress function
                         \<and> address < baseAddress function + numBytes function
                      then Some function else None, g3)))"

section \<open>Auxiliary definitions\<close>

text \<open>\<^verbatim>\<open>signExtendShift\<close> after \<open>k\<close> rounds of the first loop.\<close>

primrec shiftAfter :: "nat \<Rightarrow> int \<Rightarrow> int" where
  "shiftAfter 0 ses = ses"
| "shiftAfter (Suc k) ses = shiftAfter k (int8 (ses - 7))"

text \<open>The bytes the encoder loop writes, as a list.\<close>

function leb :: "bool \<Rightarrow> 'n::len Value \<Rightarrow> uint8 list" where
  "leb sg v =
     (if continues sg (shr sg 7 v) (ucast (v AND 127))
      then (ucast (v AND 127) OR 0x80) # leb sg (shr sg 7 v)
      else [ucast (v AND 127)])"
  by pat_completeness auto
termination
  by (relation "measure (\<lambda>(sg, v). vmeasure sg v)") (simp_all add: more_decreases)

declare leb.simps [simp del]

text \<open>
  The value \<open>v\<close> of a type of signedness \<open>sg\<close> is representable in \<open>n\<close> bits: below \<open>2 ^ n\<close>
  when unsigned, within \<open>[-2 ^ (n - 1), 2 ^ (n - 1))\<close> when signed.
\<close>

definition fits :: "bool \<Rightarrow> nat \<Rightarrow> 'a::len word \<Rightarrow> bool" where
  "fits sg n v = (if sg then - (2 ^ (n - 1)) \<le> sint v \<and> sint v < 2 ^ (n - 1) else uint v < 2 ^ n)"

text \<open>The value the second loop of the decoder builds, by recursion on the array.\<close>

fun assemble :: "uint8 list \<Rightarrow> 'a::len word" where
  "assemble [] = 0"
| "assemble (b # bs) = ucast (b AND NOT 0x80) OR push_bit 7 (assemble bs)"

text \<open>The final byte passes the test of the decoder.\<close>

definition finalOK :: "bool \<Rightarrow> nat \<Rightarrow> uint8 \<Rightarrow> bool" where
  "finalOK sg maxBits b =
     (b AND NOT (highestByteUsedBitmask maxBits) = 0
      \<or> (sg \<and> b AND NOT (highestByteUsedBitmask maxBits) = highestByteSignedBitmask maxBits))"

text \<open>The \<open>n\<close> bytes of memory at the cursor of an input stream.\<close>

definition pending :: "MemoryInputStream \<Rightarrow> nat \<Rightarrow> uint8 list" where
  "pending s n = map (\<lambda>i. memory s (next s + word_of_nat i)) [0..<n]"

text \<open>
  The stream holds the bytes \<open>bs\<close> at its cursor: they lie before \<^verbatim>\<open>end\<close>, as numbers, and
  are the bytes of memory there.
\<close>

definition holds :: "MemoryInputStream \<Rightarrow> uint8 list \<Rightarrow> bool" where
  "holds s bs = (unat (next s) + length bs \<le> unat (end s) \<and> pending s (length bs) = bs)"

text \<open>A memory that holds the array \<open>xs\<close> at the address \<open>begin\<close>, and zero elsewhere.\<close>

definition arrayAt :: "pointer \<Rightarrow> uint8 list \<Rightarrow> pointer \<Rightarrow> uint8" where
  "arrayAt begin xs a = (if unat (a - begin) < length xs then xs ! unat (a - begin) else 0)"

text \<open>
  Encode-then-decode: the encoder \<open>enc\<close> appends to any output stream without throwing (the
  bytes written before stay), and the decoder \<open>dec\<close>, on any input stream that holds at its
  cursor the bytes the encoder appended (and anything after them), returns \<open>v\<close> with the
  cursor just after those bytes.
\<close>

definition roundtrips ::
  "(ArrayOutputStream \<Rightarrow> 'v \<Rightarrow> (exception + unit) \<times> ArrayOutputStream)
     \<Rightarrow> (MemoryInputStream \<Rightarrow> (exception + 'v) \<times> MemoryInputStream) \<Rightarrow> 'v \<Rightarrow> bool" where
  "roundtrips enc dec v =
     (\<forall>stream istream. nextIndex stream \<le> length (bytes stream) \<longrightarrow>
        fst (enc stream v) = Inr ()
        \<and> take (length (getBytes stream)) (getBytes (snd (enc stream v))) = getBytes stream
        \<and> (holds istream (drop (length (getBytes stream)) (getBytes (snd (enc stream v)))) \<longrightarrow>
             dec istream =
               (Inr v, istream \<lparr> next := next istream
                  + word_of_nat (length (getBytes (snd (enc stream v))) - length (getBytes stream)) \<rparr>)))"

subsection \<open>Loaded modules and their address ranges\<close>

text \<open>The address \<open>a\<close> lies in \<open>[f.base, f.base + f.length)\<close>, as numbers.\<close>

definition covers :: "JITFunction \<Rightarrow> Uptr \<Rightarrow> bool" where
  "covers f a = (unat (baseAddress f) \<le> unat a \<and> unat a < unat (baseAddress f) + unat (numBytes f))"

text \<open>
  The function map that the constructor's loop builds from the functions \<open>fs\<close>, and the global
  map after the modules \<open>ms\<close> have been constructed, in this order.
\<close>

definition functionMapOf :: "JITFunction list \<Rightarrow> JITFunction addressMap" where
  "functionMapOf fs = foldl (\<lambda>M f. emplace (baseAddress f + numBytes f) f M) [] fs"

definition indexOf :: "Platform \<Rightarrow> LoadedModule list \<Rightarrow> LoadedModule addressMap" where
  "indexOf P ms = foldl (\<lambda>M m. emplace (imageEnd P m) m M) [] ms"

text \<open>
  The state \<open>g\<close> holds the loaded modules \<open>ms\<close>: its map is the one built from them, and the
  function map of each is the one built from its \<^verbatim>\<open>functions\<close>.
\<close>

definition loaded :: "Platform \<Rightarrow> LoadedModule list \<Rightarrow> Global \<Rightarrow> bool" where
  "loaded P ms g =
     (addressToModuleMap g = indexOf P ms
      \<and> list_all (\<lambda>m. addressToFunctionMap m = functionMapOf (functions m)) ms)"

text \<open>
  Address ranges \<open>(base, end)\<close>, as numbers, are separated when no two have the same end and
  any two lie one after the other.
\<close>

definition separated :: "(nat \<times> nat) list \<Rightarrow> bool" where
  "separated rs =
     (distinct (map snd rs)
      \<and> list_all (\<lambda>r. list_all (\<lambda>r'. r = r' \<or> snd r \<le> fst r' \<or> snd r' \<le> fst r) rs) rs)"

definition functionRange :: "JITFunction \<Rightarrow> nat \<times> nat" where
  "functionRange f = (unat (baseAddress f), unat (baseAddress f) + unat (numBytes f))"

definition imageRange :: "Platform \<Rightarrow> LoadedModule \<Rightarrow> nat \<times> nat" where
  "imageRange P m =
     (unat (imageBaseAddress (memoryManager m)),
      unat (imageBaseAddress (memoryManager m)) + unat (getNumImageBytes P (memoryManager m)))"

text \<open>
  The loaded modules \<open>ms\<close> do not overlap: their images are separated and lie in the address
  space, and in each module the functions are separated and lie inside the image.
\<close>

definition nonOverlapping :: "Platform \<Rightarrow> LoadedModule list \<Rightarrow> bool" where
  "nonOverlapping P ms =
     (separated (map (imageRange P) ms)
      \<and> list_all (\<lambda>m. snd (imageRange P m) < 2 ^ 64
            \<and> separated (map functionRange (functions m))
            \<and> list_all (\<lambda>f. fst (imageRange P m) \<le> fst (functionRange f)
                  \<and> snd (functionRange f) \<le> snd (imageRange P m)) (functions m)) ms)"

subsection \<open>Rounding\<close>

text \<open>\<open>x\<close> rounded up to a multiple of \<open>a\<close>, on the natural numbers.\<close>

definition roundUp :: "nat \<Rightarrow> nat \<Rightarrow> nat" where
  "roundUp x a = (x + a - 1) div a * a"

section \<open>Lemmas on the decoder\<close>

lemma readLoop_done: "\<not> n < mb \<Longrightarrow> readLoop mb buf n ses s = (Inr (buf, n, ses), s)"
  by (simp add: readLoop.simps)

lemma advance_1:
  assumes "unat (next s) < unat (end s)"
  shows "advance 1 s = (Inr (next s), s \<lparr> next := next s + 1 \<rparr>)"
    and "unat (next s + 1) = unat (next s) + 1"
proof -
  have "unat (end s) < 2 ^ LENGTH(64)" by (rule unsigned_less)
  with assms have "unat (next s) + unat (1 :: pointer) < 2 ^ LENGTH(64)" by simp
  then have u: "unat (next s + 1) = unat (next s) + unat (1 :: pointer)"
    by (simp only: unat_add_lem [THEN iffD1])
  then show "unat (next s + 1) = unat (next s) + 1" by simp
  with assms have "\<not> end s < next s + 1" by (simp add: word_less_nat_alt)
  then show "advance 1 s = (Inr (next s), s \<lparr> next := next s + 1 \<rparr>)"
    by (simp add: advance_def)
qed

lemma readLoop_step:
  assumes "n < mb" and "unat (next s) < unat (end s)"
  shows "readLoop mb buf n ses s =
     (if memory s (next s) AND 0x80 = 0
      then (Inr (buf[n := memory s (next s)], n + 1, int8 (ses - 7)), s \<lparr> next := next s + 1 \<rparr>)
      else readLoop mb (buf[n := memory s (next s)]) (n + 1) (int8 (ses - 7)) (s \<lparr> next := next s + 1 \<rparr>))"
  using assms(1) by (subst readLoop.simps) (simp add: advance_1(1) [OF assms(2)])

lemma readLoop_eof:
  assumes "n < mb" and "next s = end s" and "unat (end s) + 1 < 2 ^ 64"
  shows "readLoop mb buf n ses s = (Inl (getMoreData 1), s)"
proof -
  have "unat (end s) + unat (1 :: pointer) < 2 ^ LENGTH(64)" using assms(3) by simp
  then have "unat (end s + 1) = unat (end s) + unat (1 :: pointer)"
    by (simp only: unat_add_lem [THEN iffD1])
  then have "end s < end s + 1" by (simp add: word_less_nat_alt)
  then have "advance 1 s = (Inl (getMoreData 1), s)" by (simp add: advance_def assms(2))
  then show ?thesis using assms(1) by (subst readLoop.simps) simp
qed

lemma pending_Suc:
  "pending s (Suc n) = memory s (next s) # pending (s \<lparr> next := next s + 1 \<rparr>) n"
proof -
  have "[0..<Suc n] = 0 # map Suc [0..<n]" by (simp add: upt_conv_Cons map_Suc_upt del: upt_Suc)
  then show ?thesis by (simp add: pending_def comp_def add.assoc del: upt_Suc)
qed

lemma holds_Cons:
  assumes "holds s (b # bs)"
  shows "unat (next s) < unat (end s)" and "memory s (next s) = b"
    and "holds (s \<lparr> next := next s + 1 \<rparr>) bs"
proof -
  from assms show lt: "unat (next s) < unat (end s)" by (simp add: holds_def)
  from assms show "memory s (next s) = b" by (simp add: holds_def pending_Suc)
  from assms advance_1(2) [OF lt] show "holds (s \<lparr> next := next s + 1 \<rparr>) bs"
    by (simp add: holds_def pending_Suc)
qed

lemma readLoop_reads:
  assumes "bs \<noteq> []"
    and "\<forall>b \<in> set (butlast bs). b AND 0x80 \<noteq> 0"
    and "last bs AND 0x80 = 0 \<or> n + length bs = mb"
    and "n + length bs \<le> mb" and "length buf = mb"
    and "holds s bs"
  shows "readLoop mb buf n ses s =
     (Inr (take n buf @ bs @ drop (n + length bs) buf, n + length bs,
           shiftAfter (length bs) ses),
      s \<lparr> next := next s + word_of_nat (length bs) \<rparr>)"
  using assms
proof (induction bs arbitrary: buf n ses s)
  case Nil
  then show ?case by simp
next
  case (Cons b bs')
  let ?s' = "s \<lparr> next := next s + 1 \<rparr>"
  let ?buf' = "buf[n := b]"
  from Cons.prems have n: "n < mb" by simp
  note h = holds_Cons [OF Cons.prems(6)]
  note nx = h(1)
  note b = h(2)
  have upd: "?buf' = take n buf @ b # drop (Suc n) buf"
    using n Cons.prems(5) by (simp add: upd_conv_take_nth_drop)
  show ?case
  proof (cases "bs' = []")
    case True
    show ?thesis
    proof (cases "b AND 0x80 = 0")
      case True
      with \<open>bs' = []\<close> show ?thesis
        by (simp add: readLoop_step [OF n nx] b upd)
    next
      case False
      with Cons.prems(3) \<open>bs' = []\<close> have "\<not> n + 1 < mb" by simp
      with False \<open>bs' = []\<close> show ?thesis
        by (simp add: readLoop_step [OF n nx] b upd readLoop_done)
    qed
  next
    case False
    then have cont: "b AND 0x80 \<noteq> 0" using Cons.prems(2) by simp
    have IH: "readLoop mb ?buf' (n + 1) (int8 (ses - 7)) ?s' =
       (Inr (take (n + 1) ?buf' @ bs' @ drop (n + 1 + length bs') ?buf', n + 1 + length bs',
             shiftAfter (length bs') (int8 (ses - 7))),
        ?s' \<lparr> next := next ?s' + word_of_nat (length bs') \<rparr>)"
      using False Cons.prems h(3) by (intro Cons.IH) auto
    have t1: "take (n + 1) ?buf' = take n buf @ [b]"
      using n Cons.prems(5) by (simp add: upd)
    have t2: "drop (n + 1 + length bs') ?buf' = drop (n + length (b # bs')) buf"
      by simp
    show ?thesis
      using cont by (simp add: readLoop_step [OF n nx] b IH [simplified] t1 [simplified] add.assoc)
  qed
qed

lemma readLoop_frame:
  "snd (readLoop mb buf n ses s) = s \<lparr> next := next (snd (readLoop mb buf n ses s)) \<rparr>"
proof (induction mb buf n ses s rule: readLoop.induct)
  case (1 mxBytes buf numBytes signExtendShift stream)
  show ?case
  proof (cases "numBytes < mxBytes")
    case False
    then show ?thesis by (simp add: readLoop_done)
  next
    case True
    show ?thesis
    proof (cases "end stream < next stream + 1")
      case True
      with \<open>numBytes < mxBytes\<close> show ?thesis
        by (subst (1 2) readLoop.simps) (simp add: advance_def)
    next
      case False
      let ?s' = "stream \<lparr> next := next stream + 1 \<rparr>"
      from False have adv: "advance 1 stream = (Inr (next stream), ?s')"
        by (simp add: advance_def)
      show ?thesis
      proof (cases "memory ?s' (next stream) AND 0x80 = 0")
        case True
        with \<open>numBytes < mxBytes\<close> adv show ?thesis
          by (subst (1 2) readLoop.simps) simp
      next
        case False
        note IH = 1 [OF \<open>numBytes < mxBytes\<close> adv [symmetric] refl False]
        have step: "readLoop mxBytes buf numBytes signExtendShift stream
            = readLoop mxBytes (buf[numBytes := memory ?s' (next stream)]) (numBytes + 1)
                (int8 (signExtendShift - 7)) ?s'"
          using \<open>numBytes < mxBytes\<close> adv False by (subst readLoop.simps) simp
        show ?thesis unfolding step by (subst IH) simp
      qed
    qed
  qed
qed

lemma serializeVarInt_in_frame:
  "snd (serializeVarInt_in sg B s lo hi) = s \<lparr> next := next (snd (serializeVarInt_in sg B s lo hi)) \<rparr>"
proof -
  obtain r s' where r: "readLoop (maxBytes B) (replicate (maxBytes B) 0) 0
      (int8 (int (LENGTH('a)) * 8)) s = (r, s')"
    by (cases "readLoop (maxBytes B) (replicate (maxBytes B) 0) 0 (int8 (int (LENGTH('a)) * 8)) s")
  from readLoop_frame [of "maxBytes B" "replicate (maxBytes B) 0" 0 "int8 (int (LENGTH('a)) * 8)" s]
  have s': "s' = s \<lparr> next := next s' \<rparr>" by (simp add: r)
  have "snd (serializeVarInt_in sg B s lo hi) = s'"
    unfolding serializeVarInt_in_def r by (simp add: Let_def split: sum.splits prod.splits)
  then show ?thesis using s' by simp
qed

lemma decodedI:
  assumes "fst (serializeVarInt_in sg B s lo hi) = x"
    and "next (snd (serializeVarInt_in sg B s lo hi)) = p"
  shows "serializeVarInt_in sg B s lo hi = (x, s \<lparr> next := p \<rparr>)"
  using assms serializeVarInt_in_frame [of sg B s lo hi]
  by (metis prod.collapse)

lemma numUsed_bounds:
  assumes "0 < maxBits"
  shows "1 \<le> numUsedBitsInHighestByte maxBits" and "numUsedBitsInHighestByte maxBits \<le> 7"
    and "1 \<le> maxBytes maxBits"
    and "numUsedBitsInHighestByte maxBits + (maxBytes maxBits - 1) * 7 = maxBits"
  using assms unfolding numUsedBitsInHighestByte_def maxBytes_def by presburger+

lemma usedBitmask_mask: "highestByteUsedBitmask maxBits = mask (numUsedBitsInHighestByte maxBits)"
  by (simp add: highestByteUsedBitmask_def mask_eq_exp_minus_1 push_bit_eq_mult)

lemma bit_usedBitmask:
  "bit (highestByteUsedBitmask maxBits) i \<longleftrightarrow> i < 8 \<and> i < numUsedBitsInHighestByte maxBits"
  by (simp add: usedBitmask_mask bit_simps)

lemma bit_0x80: "bit (0x80 :: uint8) i \<longleftrightarrow> i = 7"
  using bit_exp_iff [of 7 i, where 'a = uint8] by auto

lemma and_0x80: "(b :: uint8) AND 0x80 \<noteq> 0 \<longleftrightarrow> bit b 7"
  using and_exp_eq_0_iff_not_bit [of b 7] by simp

lemma bit_signedBitmask:
  "bit (highestByteSignedBitmask maxBits) i \<longleftrightarrow> numUsedBitsInHighestByte maxBits \<le> i \<and> i < 7"
proof -
  have e: "(0x80 :: uint8) = 2 ^ 7" by simp
  show ?thesis
    unfolding highestByteSignedBitmask_def e
    by (auto simp add: bit_usedBitmask bit_simps simp del: power_numeral)
qed


section \<open>Lemmas on the encoder and the round trip\<close>

lemma write_byte_getBytes:
  assumes "nextIndex s \<le> length (bytes s)"
  shows "getBytes (write_byte b s) = getBytes s @ [b]"
    and "nextIndex (write_byte b s) \<le> length (bytes (write_byte b s))"
  using assms
  by (auto simp add: write_byte_def advance_out_def extendBuffer_def getBytes_def resize_def
      Let_def take_Suc_conv_app_nth max_def)

lemma loop_more:
  "continues sg (shr sg 7 v) (ucast (v AND 127)) \<Longrightarrow>
   serializeVarInt_loop sg v stream =
     serializeVarInt_loop sg (shr sg 7 v) (write_byte (ucast (v AND 127) OR 0x80) stream)"
  by (subst serializeVarInt_loop.simps) simp

lemma loop_stop:
  "\<not> continues sg (shr sg 7 v) (ucast (v AND 127)) \<Longrightarrow>
   serializeVarInt_loop sg v stream = write_byte (ucast (v AND 127)) stream"
  by (subst serializeVarInt_loop.simps) simp

lemma leb_more:
  "continues sg (shr sg 7 v) (ucast (v AND 127)) \<Longrightarrow>
   leb sg v = (ucast (v AND 127) OR 0x80) # leb sg (shr sg 7 v)"
  by (subst leb.simps) simp

lemma leb_stop:
  "\<not> continues sg (shr sg 7 v) (ucast (v AND 127)) \<Longrightarrow> leb sg v = [ucast (v AND 127)]"
  by (subst leb.simps) simp

lemma loop_getBytes:
  assumes "nextIndex s \<le> length (bytes s)"
  shows "getBytes (serializeVarInt_loop sg v s) = getBytes s @ leb sg v
       \<and> nextIndex (serializeVarInt_loop sg v s) \<le> length (bytes (serializeVarInt_loop sg v s))"
  using assms
proof (induction sg v s rule: serializeVarInt_loop.induct)
  case (1 sg v stream)
  show ?case
  proof (cases "continues sg (shr sg 7 v) (ucast (v AND 127))")
    case True
    from 1(1) [OF True write_byte_getBytes(2) [OF 1(2)]] show ?thesis
      unfolding loop_more [OF True] leb_more [OF True]
      by (simp add: write_byte_getBytes(1) [OF 1(2)])
  next
    case False
    show ?thesis
      unfolding loop_stop [OF False] leb_stop [OF False]
      by (simp add: write_byte_getBytes [OF 1(2)])
  qed
qed

lemma low7_no_cont: "(ucast (v AND 127 :: 'a::len word) :: uint8) AND 0x80 = 0"
proof -
  have "\<not> bit (ucast (v AND 127 :: 'a word) :: uint8) 7"
    by (auto simp add: bit_simps)
  then show ?thesis using and_0x80 by blast
qed

lemma or_0x80_cont: "((b :: uint8) OR 0x80) AND 0x80 \<noteq> 0"
  unfolding and_0x80 by (simp add: bit_simps bit_0x80)

lemma leb_structure:
  "leb sg v \<noteq> [] \<and> (\<forall>b \<in> set (butlast (leb sg v)). b AND 0x80 \<noteq> 0) \<and> last (leb sg v) AND 0x80 = 0"
proof (induction sg v rule: leb.induct)
  case (1 sg v)
  show ?case
  proof (cases "continues sg (shr sg 7 v) (ucast (v AND 127))")
    case True
    with 1 [OF True] show ?thesis
      unfolding leb_more [OF True] by (simp add: or_0x80_cont)
  next
    case False
    then show ?thesis
      unfolding leb_stop [OF False] by (simp add: low7_no_cont)
  qed
qed

lemma ival_shr7: "ival sg (shr sg 7 v) = ival sg v div 128"
proof (cases sg)
  case True
  then show ?thesis by (simp add: ival_def shr_def sint_signed_drop_bit_eq drop_bit_eq_div)
next
  case False
  have "uint (drop_bit 7 v) = drop_bit 7 (uint v)"
    by (simp add: unsigned_drop_bit_eq take_bit_int_eq_self)
  with False show ?thesis by (simp add: ival_def shr_def drop_bit_eq_div)
qed

lemma div128_bounds:
  fixes x p :: int
  shows "- (128 * p) \<le> x \<and> x < 128 * p \<longleftrightarrow> - p \<le> x div 128 \<and> x div 128 < p"
proof -
  define q r where "q = x div 128" and "r = x mod 128"
  have x: "x = 128 * q + r" and r: "0 \<le> r" "r < 128" by (simp_all add: q_def r_def)
  show ?thesis unfolding q_def [symmetric] unfolding x using r by linarith
qed

lemma div128_less:
  fixes x p :: int
  shows "x < 128 * p \<longleftrightarrow> x div 128 < p"
proof -
  define q r where "q = x div 128" and "r = x mod 128"
  have x: "x = 128 * q + r" and r: "0 \<le> r" "r < 128" by (simp_all add: q_def r_def)
  show ?thesis unfolding q_def [symmetric] unfolding x using r by linarith
qed

lemma pow7: "(2::int) ^ (m + 7) = 128 * 2 ^ m" "(2::int) ^ (7 + m) = 128 * 2 ^ m"
  by (simp_all add: power_add)

lemma fits_shr7_signed:
  assumes n: "0 < n"
  shows "fits True (n + 7) v \<longleftrightarrow> fits True n (signed_drop_bit 7 v)"
proof -
  from n obtain m where m: "n = Suc m" by (cases n) auto
  have p: "(2::int) ^ (n + 7 - 1) = 128 * 2 ^ (n - 1)" by (simp add: m pow7)
  have "sint (signed_drop_bit 7 v) = sint v div 128"
    using ival_shr7 [of True v] by (simp add: ival_def shr_def)
  then show ?thesis
    unfolding fits_def if_True p
    using div128_bounds [of "2 ^ (n - 1)" "sint v"] by simp
qed

lemma fits_shr7_unsigned:
  "fits False (n + 7) v \<longleftrightarrow> fits False n (drop_bit 7 v)"
proof -
  have p: "(2::int) ^ (n + 7) = 128 * 2 ^ n" by (rule pow7)
  have "uint (drop_bit 7 v) = uint v div 128"
    using ival_shr7 [of False v] by (simp add: ival_def shr_def)
  then show ?thesis
    unfolding fits_def if_False p
    using div128_less [of "uint v" "2 ^ n"] by simp
qed

lemma fits_shr7: "0 < n \<Longrightarrow> fits sg (n + 7) v \<longleftrightarrow> fits sg n (shr sg 7 v)"
  by (cases sg) (simp_all add: shr_def fits_shr7_signed fits_shr7_unsigned)

lemma fits_7_stop_unsigned:
  "fits False 7 v \<longleftrightarrow> \<not> continues False (drop_bit 7 v) b"
proof -
  have "uint v < 128 \<longleftrightarrow> uint v div 128 = 0" by (auto simp add: div_pos_pos_trivial)
  moreover have "uint (drop_bit 7 v) = uint v div 128"
    using ival_shr7 [of False v] by (simp add: ival_def shr_def)
  moreover have "drop_bit 7 v = 0 \<longleftrightarrow> uint (drop_bit 7 v) = 0" by (simp add: uint_0_iff)
  ultimately show ?thesis by (simp add: fits_def continues_def)
qed

lemma fits_7_stop_signed:
  fixes v :: "'n::len Value"
  shows "fits True 7 v \<longleftrightarrow> \<not> continues True (signed_drop_bit 7 v) (ucast (v AND 127))"
proof -
  define q r where "q = sint v div 128" and "r = sint v mod 128"
  have x: "sint v = 128 * q + r" and r: "0 \<le> r" "r < 128" by (simp_all add: q_def r_def)
  have "(- 64 \<le> sint v \<and> sint v < 64) \<longleftrightarrow>
      \<not> ((q \<noteq> 0 \<and> q \<noteq> - 1) \<or> (q \<ge> 0 \<and> 64 \<le> r) \<or> (q < 0 \<and> \<not> 64 \<le> r))"
    unfolding x using r by linarith
  then show ?thesis
    unfolding fits_def if_True more_signed_int bit6_int q_def r_def by simp
qed

lemma fits_7_stop:
  fixes v :: "'n::len Value"
  shows "fits sg 7 v \<longleftrightarrow> \<not> continues sg (shr sg 7 v) (ucast (v AND 127))"
  by (cases sg) (simp_all add: shr_def fits_7_stop_signed fits_7_stop_unsigned)

lemma leb_length:
  fixes v :: "'n::len Value"
  shows "0 < n \<Longrightarrow> fits sg (7 * n) v \<Longrightarrow> length (leb sg v) \<le> n"
proof (induction n arbitrary: v)
  case 0
  then show ?case by simp
next
  case (Suc n)
  show ?case
  proof (cases "continues sg (shr sg 7 v) (ucast (v AND 127))")
    case False
    then show ?thesis by (simp add: leb_stop)
  next
    case True
    then have "\<not> fits sg 7 v" by (simp add: fits_7_stop)
    with Suc.prems have n: "0 < n" by (cases n) auto
    from Suc.prems have "fits sg (7 * n + 7) v" by (simp add: add.commute)
    then have "fits sg (7 * n) (shr sg 7 v)" using n by (simp add: fits_shr7)
    from Suc.IH [OF n this] show ?thesis by (simp add: leb_more [OF True])
  qed
qed

lemma leb_fits:
  fixes v :: "'n::len Value"
  shows "fits sg (7 * length (leb sg v)) v"
proof (induction sg v rule: leb.induct)
  case (1 sg v)
  show ?case
  proof (cases "continues sg (shr sg 7 v) (ucast (v AND 127))")
    case False
    then show ?thesis by (simp add: leb_stop fits_7_stop)
  next
    case True
    have "0 < length (leb sg (shr sg 7 v))" using leb_structure [of sg "shr sg 7 v"] by simp
    then have "fits sg (7 * length (leb sg (shr sg 7 v)) + 7) v"
      using 1 [OF True] by (simp add: fits_shr7)
    then show ?thesis by (simp add: leb_more [OF True] add.commute)
  qed
qed

lemma fold_assemble:
  "(\<forall>i < length bs. g (k + i) = ucast ((bs ! i) AND NOT 0x80)) \<Longrightarrow>
   fold (\<lambda>i v. v OR push_bit (i * 7) (g i)) [k..<k + length bs] acc
     = acc OR push_bit (k * 7) (assemble bs :: 'a::len word)"
proof (induction bs arbitrary: k acc)
  case Nil
  then show ?case by simp
next
  case (Cons b bs)
  have u: "[k..<k + length (b # bs)] = k # [Suc k..<Suc k + length bs]"
    by (simp add: upt_conv_Cons del: upt_Suc)
  from Cons.prems have g0: "g k = ucast (b AND NOT 0x80)" by force
  have "\<forall>i < length bs. g (Suc k + i) = ucast ((bs ! i) AND NOT 0x80)"
  proof (intro allI impI)
    fix i assume "i < length bs"
    then have "Suc i < length (b # bs)" by simp
    with Cons.prems have "g (k + Suc i) = ucast (((b # bs) ! Suc i) AND NOT 0x80)" by blast
    then show "g (Suc k + i) = ucast ((bs ! i) AND NOT 0x80)" by simp
  qed
  then have ih: "fold (\<lambda>i v. v OR push_bit (i * 7) (g i)) [Suc k..<Suc k + length bs] acc'
            = acc' OR push_bit (Suc k * 7) (assemble bs :: 'a word)" for acc'
    by (rule Cons.IH)
  have "push_bit (k * 7) (g k) OR push_bit (Suc k * 7) (assemble bs :: 'a word)
      = push_bit (k * 7) (assemble (b # bs))"
    by (simp add: g0 add.commute)
  then show ?case
    unfolding u fold_Cons comp_def ih by (simp only: or.assoc)
qed

lemma decodeBytes_assemble: "decodeBytes (length buf) buf = assemble buf"
  using fold_assemble [of buf "\<lambda>i. ucast ((buf ! i) AND NOT 0x80)" 0 0]
  by (simp add: decodeBytes_def)

lemma assemble_zeros: "assemble (bs @ replicate k 0) = assemble bs"
proof (induction bs)
  case Nil
  show ?case by (induction k) simp_all
next
  case (Cons b bs)
  then show ?case by simp
qed

lemma bit_128_int: "bit (128 :: int) n \<longleftrightarrow> n = 7"
  using bit_exp_iff [of 7 n, where 'a = int] by auto

lemma bit_127_int: "bit (127 :: int) n \<longleftrightarrow> n < 7"
proof -
  have "(127 :: int) = mask 7" by (simp add: mask_eq_exp_minus_1)
  then show ?thesis by (simp only: bit_mask_iff) simp
qed

lemma mask7: "(127 :: 'a::len word) = mask 7"
  by (simp add: mask_eq_exp_minus_1)

lemma low7_group:
  "ucast ((ucast (v AND 127 :: 'a::len word) :: uint8) AND NOT 0x80) = (take_bit 7 v :: 'a word)"
  "ucast (((ucast (v AND 127 :: 'a word) :: uint8) OR 0x80) AND NOT 0x80) = (take_bit 7 v :: 'a word)"
  by (rule bit_eqI; auto simp add: bit_simps bit_128_int bit_127_int dest: bit_imp_le_length)+

lemma bit_shr7:
  "n + 7 < LENGTH('a) \<Longrightarrow> bit (shr sg 7 (v :: 'a::len word)) n = bit v (n + 7)"
  by (cases sg) (auto simp add: shr_def bit_simps add.commute)

lemma assemble_leb:
  fixes v :: "'n::len Value"
  shows "assemble (leb sg v) = take_bit (7 * length (leb sg v)) v"
proof (induction sg v rule: leb.induct)
  case (1 sg v)
  show ?case
  proof (cases "continues sg (shr sg 7 v) (ucast (v AND 127))")
    case False
    show ?thesis unfolding leb_stop [OF False] assemble.simps low7_group by simp
  next
    case True
    let ?k = "length (leb sg (shr sg 7 v))"
    have "take_bit 7 v OR push_bit 7 (take_bit (7 * ?k) (shr sg 7 v)) = take_bit (7 * ?k + 7) v"
    proof (rule bit_eqI)
      fix n
      assume "possible_bit TYPE('n Value) n"
      then have n: "n < LENGTH('n bit0 bit0 bit0)" by (simp add: possible_bit_def)
      show "bit (take_bit 7 v OR push_bit 7 (take_bit (7 * ?k) (shr sg 7 v))) n
          = bit (take_bit (7 * ?k + 7) v) n"
      proof (cases "n < 7")
        case True
        then show ?thesis by (simp add: bit_simps)
      next
        case False
        then have "bit (shr sg 7 v) (n - 7) = bit v n" using n bit_shr7 [of "n - 7" sg v] by simp
        with False n show ?thesis by (auto simp add: bit_simps)
      qed
    qed
    with 1 [OF True] show ?thesis
      unfolding leb_more [OF True] assemble.simps low7_group by (simp add: add.commute)
  qed
qed

lemma int8_id: "- 128 \<le> x \<Longrightarrow> x < 128 \<Longrightarrow> int8 x = x"
  unfolding int8_def by (rule signed_take_bit_int_eq_self) simp_all

lemma shiftAfter_exact:
  "- 128 \<le> x - 7 * int k \<Longrightarrow> x < 128 \<Longrightarrow> shiftAfter k x = x - 7 * int k"
proof (induction k arbitrary: x)
  case 0
  then show ?case by simp
next
  case (Suc k)
  have "int8 (x - 7) = x - 7" using Suc.prems by (intro int8_id) simp_all
  moreover have "shiftAfter k (x - 7) = x - 7 - 7 * int k"
    using Suc.prems by (intro Suc.IH) simp_all
  ultimately show ?case by simp
qed

lemma fits_unsigned_bits:
  assumes "fits False k v" and "k \<le> n"
  shows "\<not> bit v n"
proof
  assume "bit v n"
  then have "bit (uint v) n" by (simp add: bit_uint_iff bit_imp_le_length)
  moreover have "take_bit k (uint v) = uint v"
    using assms(1) by (intro take_bit_int_eq_self) (simp_all add: fits_def)
  ultimately have "bit (take_bit k (uint v)) n" by simp
  then show False using assms(2) by (simp add: bit_take_bit_iff)
qed

lemma fits_sign_bits:
  fixes v :: "'a::len word"
  assumes "fits True k v" and "0 < k" and "k - 1 \<le> n" and "n < LENGTH('a)"
  shows "bit v n = bit v (k - 1)"
proof -
  have e: "signed_take_bit (k - 1) (sint v) = sint v"
    using assms(1) by (intro signed_take_bit_int_eq_self) (simp_all add: fits_def)
  have "bit v n = bit (sint v) n" using assms(4) by (auto simp add: bit_sint_iff)
  also have "\<dots> = bit (signed_take_bit (k - 1) (sint v)) n" by (simp only: e)
  also have "\<dots> = bit (sint v) (k - 1)" using assms(3) by (simp add: bit_signed_take_bit_iff min_def)
  also have "\<dots> = bit v (k - 1)" using assms(3,4) by (auto simp add: bit_sint_iff)
  finally show ?thesis .
qed

lemma take_bit_fits_unsigned: "fits False k v \<Longrightarrow> take_bit k v = v"
  by (rule bit_eqI) (use fits_unsigned_bits [of k v] in \<open>auto simp add: bit_take_bit_iff not_le [symmetric]\<close>)

lemma signExtend_take_bit:
  fixes v :: "'a::len word"
  assumes "32 \<le> LENGTH('a)" and "0 < k" and "k < LENGTH('a)" and "fits True k v"
  shows "signExtend (LENGTH('a) - k) (take_bit k v) = v"
proof -
  have "signed_drop_bit (LENGTH('a) - k) (push_bit (LENGTH('a) - k) (take_bit k v)) = v"
  proof (rule bit_eqI)
    fix n
    assume "possible_bit TYPE('a word) n"
    then have n: "n < LENGTH('a)" by (simp add: possible_bit_def)
    show "bit (signed_drop_bit (LENGTH('a) - k) (push_bit (LENGTH('a) - k) (take_bit k v))) n = bit v n"
    proof (cases "k \<le> n")
      case True
      then have "bit v n = bit v (k - 1)" using fits_sign_bits [OF assms(4,2) _ n] by simp
      with True n assms(2,3) show ?thesis by (simp add: bit_simps)
    next
      case False
      with n assms(2,3) show ?thesis by (auto simp add: bit_simps)
    qed
  qed
  with assms(1) show ?thesis by (simp add: signExtend_def)
qed

lemma invalidFinalByte_iff:
  "invalidFinalByte sg maxBits buf = (\<not> finalOK sg maxBits (buf ! (maxBytes maxBits - 1)))"
  by (auto simp add: invalidFinalByte_def finalOK_def)

lemma maxBytes_add7: "maxBytes (n + 7) = maxBytes n + 1"
  by (simp add: maxBytes_def)

lemma numUsed_add7: "0 < n \<Longrightarrow> numUsedBitsInHighestByte (n + 7) = numUsedBitsInHighestByte n"
proof -
  assume "0 < n"
  then have "1 \<le> maxBytes n" by (rule numUsed_bounds(3))
  then show ?thesis
    unfolding numUsedBitsInHighestByte_def maxBytes_add7 by (cases "maxBytes n") simp_all
qed

lemma maxBytes_one: "maxBytes n = 1 \<longleftrightarrow> 0 < n \<and> n \<le> 7"
  unfolding maxBytes_def by presburger

lemma numUsed_small: "0 < n \<Longrightarrow> n \<le> 7 \<Longrightarrow> numUsedBitsInHighestByte n = n"
  unfolding numUsedBitsInHighestByte_def maxBytes_def by presburger

lemma maxBytes_ge: "n \<le> 7 * maxBytes n"
  unfolding maxBytes_def by presburger

lemma finalOK_add7: "0 < n \<Longrightarrow> finalOK sg (n + 7) b = finalOK sg n b"
  by (simp add: finalOK_def highestByteUsedBitmask_def highestByteSignedBitmask_def numUsed_add7)

lemma bit_low7: "bit (ucast (v AND 127 :: 'a::len word) :: uint8) j \<longleftrightarrow> j < 7 \<and> bit v j"
  by (auto simp add: bit_simps bit_127_int dest: bit_imp_le_length)

lemma finalOK_low7:
  fixes v :: "'a::len word"
  assumes B: "0 < B" "B \<le> 7" and f: "fits sg B v" and W: "8 \<le> LENGTH('a)"
  shows "finalOK sg B (ucast (v AND 127))"
proof -
  let ?b = "ucast (v AND 127) :: uint8"
  have nu: "numUsedBitsInHighestByte B = B" using B by (rule numUsed_small)
  have bb: "bit (?b AND NOT (highestByteUsedBitmask B)) j \<longleftrightarrow> j < 7 \<and> B \<le> j \<and> bit v j" for j
    using B by (auto simp add: bit_and_iff bit_not_iff bit_usedBitmask nu bit_low7)
  show ?thesis
  proof (cases "sg \<and> bit v (B - 1)")
    case True
    then have f': "fits True B v" using f by simp
    have "bit v j" if "B \<le> j" "j < 7" for j
      using fits_sign_bits [OF f' B(1), of j] that W True by simp
    then have "?b AND NOT (highestByteUsedBitmask B) = highestByteSignedBitmask B"
      by (intro bit_eqI) (auto simp add: bb bit_signedBitmask nu)
    with True show ?thesis by (simp add: finalOK_def)
  next
    case False
    have "\<not> bit v j" if "B \<le> j" "j < 7" for j
    proof (cases sg)
      case True
      then have f': "fits True B v" using f by simp
      from fits_sign_bits [OF f' B(1), of j] that W False True show ?thesis by simp
    next
      case False
      then show ?thesis using fits_unsigned_bits [of B v j] f that by simp
    qed
    then have "?b AND NOT (highestByteUsedBitmask B) = 0"
      by (intro bit_eqI) (auto simp add: bb)
    then show ?thesis by (simp add: finalOK_def)
  qed
qed

lemma final_byte_ok:
  fixes v :: "'n::len Value"
  shows "0 < B \<Longrightarrow> fits sg B v \<Longrightarrow> length (leb sg v) = maxBytes B \<Longrightarrow> finalOK sg B (last (leb sg v))"
proof (induction sg v arbitrary: B rule: leb.induct)
  case (1 sg v)
  show ?case
  proof (cases "continues sg (shr sg 7 v) (ucast (v AND 127))")
    case False
    with "1.prems" have "maxBytes B = 1" by (simp add: leb_stop)
    with maxBytes_one [of B] have "0 < B" "B \<le> 7" by blast+
    then have "finalOK sg B (ucast (v AND 127))"
      using "1.prems"(2) Value_len [where 'n = 'n] by (rule finalOK_low7)
    then show ?thesis by (simp add: leb_stop [OF False])
  next
    case True
    let ?v' = "shr sg 7 v"
    have ne: "leb sg ?v' \<noteq> []" using leb_structure [of sg ?v'] by simp
    from "1.prems"(3) have len: "maxBytes B = length (leb sg ?v') + 1"
      by (simp add: leb_more [OF True])
    with ne have "maxBytes B \<noteq> 1" by simp
    with "1.prems"(1) maxBytes_one [of B] have "7 < B" by simp
    define B' where "B' = B - 7"
    have B': "B = B' + 7" "0 < B'" using \<open>7 < B\<close> by (simp_all add: B'_def)
    have "fits sg B' ?v'" using "1.prems"(2) B' by (simp add: fits_shr7)
    moreover have "length (leb sg ?v') = maxBytes B'" using len by (simp add: B' maxBytes_add7)
    ultimately have "finalOK sg B' (last (leb sg ?v'))" using B'(2) by (intro "1.IH" [OF True])
    then show ?thesis using ne B' by (simp add: leb_more [OF True] finalOK_add7)
  qed
qed

lemma fits_mono:
  assumes a: "fits sg n v" "n \<le> m" "0 < n"
  shows "fits sg m v"
proof (cases sg)
  case True
  from a have p: "(2::int) ^ (n - 1) \<le> 2 ^ (m - 1)" by (intro power_increasing) simp_all
  from a True have "- (2 ^ (n - 1)) \<le> sint v" "sint v < 2 ^ (n - 1)" by (simp_all add: fits_def)
  with p have "- (2 ^ (m - 1)) \<le> sint v" "sint v < 2 ^ (m - 1)" by linarith+
  with True show ?thesis by (simp add: fits_def)
next
  case False
  from a have p: "(2::int) ^ n \<le> 2 ^ m" by (intro power_increasing) simp_all
  from a False have "uint v < 2 ^ n" by (simp add: fits_def)
  with p have "uint v < 2 ^ m" by linarith
  with False show ?thesis by (simp add: fits_def)
qed

lemma maxBytes_le: "7 * maxBytes n \<le> n + 6"
  unfolding maxBytes_def by simp

lemma fits_length: "fits sg LENGTH('a) (v :: 'a::len word)"
  using sint_ge [of v] sint_lt [of v] uint_lt2p [of v] by (simp add: fits_def)

lemma leb_length_maxBytes:
  fixes v :: "'n::len Value"
  assumes "0 < B" and "fits sg B v"
  shows "length (leb sg v) \<le> maxBytes B"
proof -
  have "0 < maxBytes B" using numUsed_bounds(3) [OF assms(1)] by simp
  moreover have "fits sg (7 * maxBytes B) v" using assms(2) maxBytes_ge assms(1) by (rule fits_mono)
  ultimately show ?thesis by (rule leb_length)
qed

lemma readLoop_leb:
  fixes v :: "'n::len Value"
  assumes "0 < B" and "fits sg B v"
    and "holds s (leb sg v)"
  shows "readLoop (maxBytes B) (replicate (maxBytes B) 0) 0 ses s =
     (Inr (leb sg v @ replicate (maxBytes B - length (leb sg v)) 0, length (leb sg v),
           shiftAfter (length (leb sg v)) ses),
      s \<lparr> next := next s + word_of_nat (length (leb sg v)) \<rparr>)"
proof -
  define bs where "bs = leb sg v"
  define mb where "mb = maxBytes B"
  have k: "length bs \<le> mb" unfolding bs_def mb_def using assms(1,2) by (rule leb_length_maxBytes)
  have st: "bs \<noteq> []" "\<forall>b \<in> set (butlast bs). b AND 0x80 \<noteq> 0" "last bs AND 0x80 = 0"
    using leb_structure [of sg v] by (simp_all add: bs_def)
  have "readLoop mb (replicate mb 0) 0 ses s =
     (Inr (take 0 (replicate mb 0) @ bs @ drop (0 + length bs) (replicate mb 0), 0 + length bs,
           shiftAfter (length bs) ses),
      s \<lparr> next := next s + word_of_nat (length bs) \<rparr>)"
    using st k assms(3) by (intro readLoop_reads) (simp_all add: bs_def)
  then show ?thesis by (simp add: bs_def mb_def)
qed

lemma leb_length_word:
  fixes v :: "'n::len Value"
  shows "7 * length (leb sg v) \<le> 8 * LENGTH('n) + 6"
proof -
  have "fits sg (LENGTH('n bit0 bit0 bit0)) v" by (rule fits_length)
  then have "length (leb sg v) \<le> maxBytes (LENGTH('n bit0 bit0 bit0))"
    by (intro leb_length_maxBytes) simp_all
  moreover have "7 * maxBytes (LENGTH('n bit0 bit0 bit0)) \<le> LENGTH('n bit0 bit0 bit0) + 6"
    by (rule maxBytes_le)
  ultimately have "7 * length (leb sg v) \<le> LENGTH('n bit0 bit0 bit0) + 6" by linarith
  then show ?thesis by simp
qed

lemma signExtendShift_exact:
  fixes v :: "'n::len Value"
  assumes "8 * LENGTH('n) < 128"
  shows "shiftAfter (length (leb sg v)) (int8 (int (LENGTH('n)) * 8))
           = int (8 * LENGTH('n)) - 7 * int (length (leb sg v))"
proof -
  have "int8 (int (LENGTH('n)) * 8) = int (LENGTH('n)) * 8" using assms by (intro int8_id) simp_all
  moreover have "shiftAfter (length (leb sg v)) (int (LENGTH('n)) * 8)
      = int (LENGTH('n)) * 8 - 7 * int (length (leb sg v))"
    using assms leb_length_word [of sg v] by (intro shiftAfter_exact) simp_all
  ultimately show ?thesis by simp
qed

lemma signExtend_leb:
  fixes v :: "'n::len Value"
  assumes "32 \<le> 8 * LENGTH('n)" and "7 * length (leb True v) < 8 * LENGTH('n)"
  shows "signExtend (8 * LENGTH('n) - 7 * length (leb True v)) (take_bit (7 * length (leb True v)) v) = v"
proof -
  have "0 < length (leb True v)" using leb_structure [of True v] by simp
  then have "signExtend (LENGTH('n bit0 bit0 bit0) - 7 * length (leb True v))
          (take_bit (7 * length (leb True v)) v) = v"
    using assms leb_fits [of True v] by (intro signExtend_take_bit) simp_all
  then show ?thesis by simp
qed

lemma take_bit_leb_beyond:
  fixes v :: "'n::len Value"
  assumes "\<not> 7 * length (leb sg v) < 8 * LENGTH('n)"
  shows "take_bit (7 * length (leb sg v)) v = v"
  using assms by (intro take_bit_word_beyond_length_eq) simp

lemma decoded_value_signed:
  fixes v :: "'n::len Value"
  assumes W: "32 \<le> 8 * LENGTH('n)" "8 * LENGTH('n) < 128"
  shows "(if 0 < shiftAfter (length (leb True v)) (int8 (int (LENGTH('n)) * 8))
          then signExtend (nat (shiftAfter (length (leb True v)) (int8 (int (LENGTH('n)) * 8))))
                 (take_bit (7 * length (leb True v)) v)
          else take_bit (7 * length (leb True v)) v) = v"
proof -
  note sa = signExtendShift_exact [OF W(2), of True v]
  show ?thesis
  proof (cases "7 * length (leb True v) < 8 * LENGTH('n)")
    case lt: True
    have n: "nat (int (8 * LENGTH('n)) - 7 * int (length (leb True v)))
               = 8 * LENGTH('n) - 7 * length (leb True v)" by simp
    have p: "0 < int (8 * LENGTH('n)) - 7 * int (length (leb True v))" using lt by simp
    show ?thesis
      unfolding sa n if_P [OF p] by (rule signExtend_leb [OF W(1) lt])
  next
    case ge: False
    have p: "\<not> 0 < int (8 * LENGTH('n)) - 7 * int (length (leb True v))" using ge by simp
    show ?thesis
      unfolding sa if_not_P [OF p] by (rule take_bit_leb_beyond [OF ge])
  qed
qed

lemma decoded_value_unsigned:
  fixes v :: "'n::len Value"
  shows "take_bit (7 * length (leb False v)) v = v"
  using leb_fits [of False v] by (rule take_bit_fits_unsigned)

lemma no_invalid_final_byte:
  fixes v :: "'n::len Value"
  assumes "0 < B" and "fits sg B v"
  shows "\<not> invalidFinalByte sg B (leb sg v @ replicate (maxBytes B - length (leb sg v)) 0)"
proof -
  define bs where "bs = leb sg v"
  define mb where "mb = maxBytes B"
  have k: "length bs \<le> mb" unfolding bs_def mb_def using assms by (rule leb_length_maxBytes)
  have ne: "bs \<noteq> []" using leb_structure [of sg v] by (simp add: bs_def)
  have "finalOK sg B ((bs @ replicate (mb - length bs) 0) ! (mb - 1))"
  proof (cases "length bs = mb")
    case True
    then have "(bs @ replicate (mb - length bs) 0) ! (mb - 1) = last bs"
      using ne by (simp add: last_conv_nth)
    moreover have "finalOK sg B (last bs)"
      unfolding bs_def using assms True by (intro final_byte_ok) (simp_all add: bs_def mb_def)
    ultimately show ?thesis by simp
  next
    case False
    with k have "length bs \<le> mb - 1" "mb - 1 - length bs < mb - length bs" by simp_all
    then have "(bs @ replicate (mb - length bs) 0) ! (mb - 1) = 0"
      by (simp add: nth_append not_less [symmetric] del: not_less)
    then show ?thesis by (simp add: finalOK_def)
  qed
  then show ?thesis by (simp add: invalidFinalByte_iff bs_def mb_def)
qed

lemma decodeBytes_leb:
  fixes v :: "'n::len Value"
  assumes "0 < B" and "fits sg B v"
  shows "decodeBytes (maxBytes B) (leb sg v @ replicate (maxBytes B - length (leb sg v)) 0)
           = take_bit (7 * length (leb sg v)) v"
proof -
  let ?buf = "leb sg v @ replicate (maxBytes B - length (leb sg v)) 0"
  have "length ?buf = maxBytes B" using leb_length_maxBytes [OF assms] by simp
  then have "decodeBytes (maxBytes B) ?buf = (assemble ?buf :: 'n Value)"
    using decodeBytes_assemble [of ?buf, where 'a = "'n bit0 bit0 bit0"] by simp
  then show ?thesis by (simp only: assemble_zeros assemble_leb)
qed

lemma serializeVarInt_in_leb:
  fixes v lo hi :: "'n::len Value"
  assumes B: "0 < B" and fit: "fits sg B v"
    and rng: "ival sg lo \<le> ival sg v" "ival sg v \<le> ival sg hi"
    and W: "sg \<longrightarrow> 32 \<le> 8 * LENGTH('n) \<and> 8 * LENGTH('n) < 128"
    and st: "holds s (leb sg v)"
  shows "serializeVarInt_in sg B s lo hi
           = (Inr v, s \<lparr> next := next s + word_of_nat (length (leb sg v)) \<rparr>)"
proof -
  have dv: "(if sg \<and> 0 < shiftAfter (length (leb sg v)) (int8 (int (LENGTH('n)) * 8))
          then signExtend (nat (shiftAfter (length (leb sg v)) (int8 (int (LENGTH('n)) * 8))))
                 (take_bit (7 * length (leb sg v)) v)
          else take_bit (7 * length (leb sg v)) v) = v"
  proof (cases sg)
    case True
    then have e: "sg = True" by simp
    from W True have W': "32 \<le> 8 * LENGTH('n)" "8 * LENGTH('n) < 128" by simp_all
    show ?thesis unfolding e simp_thms by (rule decoded_value_signed [OF W'])
  next
    case False
    then have e: "sg = False" by simp
    show ?thesis unfolding e simp_thms if_False by (rule decoded_value_unsigned)
  qed
  show ?thesis
    unfolding serializeVarInt_in_def readLoop_leb [OF B fit st] prod.case sum.case
      decodeBytes_leb [OF B fit] Let_def dv
    using no_invalid_final_byte [OF B fit] rng by simp
qed

lemma serializeVarInt_in_consumes:
  fixes v lo hi :: "'n::len Value"
  assumes B: "0 < B" and fit: "fits sg B v"
    and st: "holds s (leb sg v)"
  shows "snd (serializeVarInt_in sg B s lo hi)
           = s \<lparr> next := next s + word_of_nat (length (leb sg v)) \<rparr>"
  unfolding serializeVarInt_in_def readLoop_leb [OF B fit st] prod.case sum.case
  by (simp add: Let_def)

lemma readLoop_leb_len:
  fixes v :: "'n::len Value"
  assumes "length (leb sg v) \<le> maxBytes B" and "holds s (leb sg v)"
  shows "readLoop (maxBytes B) (replicate (maxBytes B) 0) 0 ses s =
     (Inr (leb sg v @ replicate (maxBytes B - length (leb sg v)) 0, length (leb sg v),
           shiftAfter (length (leb sg v)) ses),
      s \<lparr> next := next s + word_of_nat (length (leb sg v)) \<rparr>)"
proof -
  define bs where "bs = leb sg v"
  define mb where "mb = maxBytes B"
  have k: "length bs \<le> mb" unfolding bs_def mb_def by (rule assms(1))
  have st: "bs \<noteq> []" "\<forall>b \<in> set (butlast bs). b AND 0x80 \<noteq> 0" "last bs AND 0x80 = 0"
    using leb_structure [of sg v] by (simp_all add: bs_def)
  have "readLoop mb (replicate mb 0) 0 ses s =
     (Inr (take 0 (replicate mb 0) @ bs @ drop (0 + length bs) (replicate mb 0), 0 + length bs,
           shiftAfter (length bs) ses),
      s \<lparr> next := next s + word_of_nat (length bs) \<rparr>)"
    using st k assms(2) by (intro readLoop_reads) (simp_all add: bs_def)
  then show ?thesis by (simp add: bs_def mb_def)
qed

lemma serializeVarInt_in_consumes_len:
  fixes v lo hi :: "'n::len Value"
  assumes "length (leb sg v) \<le> maxBytes B" and "holds s (leb sg v)"
  shows "snd (serializeVarInt_in sg B s lo hi)
           = s \<lparr> next := next s + word_of_nat (length (leb sg v)) \<rparr>"
  unfolding serializeVarInt_in_def readLoop_leb_len [OF assms] prod.case sum.case
  by (simp add: Let_def)

lemma serializeVarInt_out_leb:
  assumes "ival sg lo \<le> ival sg v" "ival sg v \<le> ival sg hi"
    and "nextIndex stream \<le> length (bytes stream)"
  shows "fst (serializeVarInt_out sg B stream v lo hi) = Inr ()"
    and "getBytes (snd (serializeVarInt_out sg B stream v lo hi)) = getBytes stream @ leb sg v"
  using assms loop_getBytes [OF assms(3), of sg v] by (simp_all add: serializeVarInt_out_def)

lemma fits_between:
  assumes "fits sg B lo" and "fits sg B hi" and "ival sg lo \<le> ival sg v" and "ival sg v \<le> ival sg hi"
  shows "fits sg B v"
  using assms by (cases sg) (auto simp add: fits_def ival_def)

lemma uint_word_of_int_fit:
  "0 \<le> k \<Longrightarrow> k < 2 ^ n \<Longrightarrow> n \<le> LENGTH('a) \<Longrightarrow> uint (word_of_int k :: 'a::len word) = k"
proof -
  assume a: "0 \<le> k" "k < 2 ^ n" "n \<le> LENGTH('a)"
  then have "(2::int) ^ n \<le> 2 ^ LENGTH('a)" by (intro power_increasing) simp_all
  with a have "k < 2 ^ LENGTH('a)" by linarith
  with a(1) show ?thesis by (simp add: uint_word_of_int take_bit_int_eq_self)
qed

lemma sint_word_of_int_fit:
  "- (2 ^ (n - 1)) \<le> k \<Longrightarrow> k < 2 ^ (n - 1) \<Longrightarrow> 0 < n \<Longrightarrow> n \<le> LENGTH('a)
     \<Longrightarrow> sint (word_of_int k :: 'a::len word) = k"
proof -
  assume a: "- (2 ^ (n - 1)) \<le> k" "k < 2 ^ (n - 1)" "0 < n" "n \<le> LENGTH('a)"
  then have "(2::int) ^ (n - 1) \<le> 2 ^ (LENGTH('a) - 1)" by (intro power_increasing) simp_all
  with a have "- (2 ^ (LENGTH('a) - 1)) \<le> k" "k < 2 ^ (LENGTH('a) - 1)" by linarith+
  then show ?thesis by (simp add: sint_sbintrunc' signed_take_bit_int_eq_self)
qed

lemma bounds_u1: "uint (1 :: 'a::len word) = 1" by simp

lemma bounds_u7:
  "uint (127 :: 'n::len Value) = 127"
  using uint_word_of_int_fit [of 127 7, where 'a = "'n bit0 bit0 bit0"] Value_len [where 'n = 'n]
  by simp

lemma bounds_u32:
  "32 \<le> 8 * LENGTH('n::len) \<Longrightarrow> uint (0xFFFFFFFF :: 'n Value) = 0xFFFFFFFF"
  using uint_word_of_int_fit [of "0xFFFFFFFF" 32, where 'a = "'n bit0 bit0 bit0"] by simp

lemma bounds_u64:
  "64 \<le> 8 * LENGTH('n::len) \<Longrightarrow> uint (0xFFFFFFFFFFFFFFFF :: 'n Value) = 0xFFFFFFFFFFFFFFFF"
  using uint_word_of_int_fit [of "0xFFFFFFFFFFFFFFFF" 64, where 'a = "'n bit0 bit0 bit0"] by simp

lemma bounds_s32:
  assumes "32 \<le> 8 * LENGTH('n::len)"
  shows "sint (- 0x80000000 :: 'n Value) = - 0x80000000" and "sint (0x7FFFFFFF :: 'n Value) = 0x7FFFFFFF"
  using assms sint_word_of_int_fit [of 32 "- 0x80000000", where 'a = "'n bit0 bit0 bit0"]
    sint_word_of_int_fit [of 32 "0x7FFFFFFF", where 'a = "'n bit0 bit0 bit0"]
  by simp_all

lemma bounds_s64:
  assumes "64 \<le> 8 * LENGTH('n::len)"
  shows "sint (- 0x8000000000000000 :: 'n Value) = - 0x8000000000000000"
    and "sint (0x7FFFFFFFFFFFFFFF :: 'n Value) = 0x7FFFFFFFFFFFFFFF"
  using assms sint_word_of_int_fit [of 64 "- 0x8000000000000000", where 'a = "'n bit0 bit0 bit0"]
    sint_word_of_int_fit [of 64 "0x7FFFFFFFFFFFFFFF", where 'a = "'n bit0 bit0 bit0"]
  by simp_all

lemma roundtrips_general:
  fixes v lo hi :: "'n::len Value"
  assumes B: "0 < B" and lo: "fits sg B lo" and hi: "fits sg B hi"
    and rng: "ival sg lo \<le> ival sg v" "ival sg v \<le> ival sg hi"
    and W: "sg \<longrightarrow> 32 \<le> 8 * LENGTH('n) \<and> 8 * LENGTH('n) < 128"
  shows "roundtrips (\<lambda>stream v. serializeVarInt_out sg B stream v lo hi)
           (\<lambda>istream. serializeVarInt_in sg B istream lo hi) v"
  unfolding roundtrips_def
proof (intro allI impI conjI)
  fix stream :: ArrayOutputStream and istream :: MemoryInputStream
  assume inv: "nextIndex stream \<le> length (bytes stream)"
  note out = serializeVarInt_out_leb [OF rng inv, of B]
  show "fst (serializeVarInt_out sg B stream v lo hi) = Inr ()" by (rule out(1))
  show "take (length (getBytes stream)) (getBytes (snd (serializeVarInt_out sg B stream v lo hi)))
          = getBytes stream"
    by (simp add: out(2))
  assume "holds istream (drop (length (getBytes stream))
            (getBytes (snd (serializeVarInt_out sg B stream v lo hi))))"
  then have h: "holds istream (leb sg v)" by (simp add: out(2))
  have fit: "fits sg B v" using lo hi rng by (rule fits_between)
  have "serializeVarInt_in sg B istream lo hi
      = (Inr v, istream \<lparr> next := next istream + word_of_nat (length (leb sg v)) \<rparr>)"
    using B fit rng W h by (rule serializeVarInt_in_leb)
  then show "serializeVarInt_in sg B istream lo hi
      = (Inr v, istream \<lparr> next := next istream
           + word_of_nat (length (getBytes (snd (serializeVarInt_out sg B stream v lo hi)))
               - length (getBytes stream)) \<rparr>)"
    by (simp add: out(2))
qed

lemma roundtrips_unsigned:
  fixes v hi :: "'n::len Value"
  assumes "0 < B" and "uint hi = k" and "k < 2 ^ B" and "uint v \<le> k"
  shows "roundtrips (\<lambda>stream v. serializeVarInt_out False B stream v 0 hi)
           (\<lambda>istream. serializeVarInt_in False B istream 0 hi) v"
proof (rule roundtrips_general)
  show "0 < B" by (rule assms(1))
  show "fits False B (0 :: 'n Value)" by (simp add: fits_def)
  show "fits False B hi" using assms(2,3) by (simp add: fits_def)
  show "ival False (0 :: 'n Value) \<le> ival False v" by (simp add: ival_def)
  show "ival False v \<le> ival False hi" using assms(2,4) by (simp add: ival_def)
  show "False \<longrightarrow> 32 \<le> 8 * LENGTH('n) \<and> 8 * LENGTH('n) < 128" by simp
qed

lemma roundtrips_signed:
  fixes v lo hi :: "'n::len Value"
  assumes "0 < B" and "sint lo = - (2 ^ (B - 1))" and "sint hi = 2 ^ (B - 1) - 1"
    and "- (2 ^ (B - 1)) \<le> sint v" and "sint v \<le> 2 ^ (B - 1) - 1"
    and "32 \<le> 8 * LENGTH('n)" and "8 * LENGTH('n) < 128"
  shows "roundtrips (\<lambda>stream v. serializeVarInt_out True B stream v lo hi)
           (\<lambda>istream. serializeVarInt_in True B istream lo hi) v"
proof (rule roundtrips_general)
  show "0 < B" by (rule assms(1))
  show "fits True B lo" using assms(2) by (simp add: fits_def)
  show "fits True B hi" using assms(3) by (simp add: fits_def)
  show "ival True lo \<le> ival True v" using assms(2,4) by (simp add: ival_def)
  show "ival True v \<le> ival True hi" using assms(3,5) by (simp add: ival_def)
  show "True \<longrightarrow> 32 \<le> 8 * LENGTH('n) \<and> 8 * LENGTH('n) < 128" using assms(6,7) by simp
qed

section \<open>Round trip\<close>

text \<open>
  C1. For each helper (varuint1, varuint7, varuint32, varuint64 on an unsigned \<^verbatim>\<open>Value\<close>;
  varint32, varint64 on a signed one) and every value in the helper's declared range, of a
  type wide enough to hold that range (and, for the signed helpers, of at most 15 bytes, so
  that \<^verbatim>\<open>signExtendShift\<close> fits its \<^verbatim>\<open>int8\<close>): encoding the value and decoding the bytes
  written returns the value.
\<close>

theorem varint_roundtrip:
  "(\<forall>v :: 'a::len Value. uint v \<le> 1 \<longrightarrow>
      roundtrips (serializeVarUInt1_out False) (serializeVarUInt1_in False) v)
   \<and> (\<forall>v :: 'b::len Value. uint v \<le> 127 \<longrightarrow>
      roundtrips (serializeVarUInt7_out False) (serializeVarUInt7_in False) v)
   \<and> (32 \<le> 8 * LENGTH('c::len) \<longrightarrow> (\<forall>v :: 'c Value. uint v \<le> 0xFFFFFFFF \<longrightarrow>
      roundtrips (serializeVarUInt32_out False) (serializeVarUInt32_in False) v))
   \<and> (64 \<le> 8 * LENGTH('d::len) \<longrightarrow> (\<forall>v :: 'd Value. uint v \<le> 0xFFFFFFFFFFFFFFFF \<longrightarrow>
      roundtrips (serializeVarUInt64_out False) (serializeVarUInt64_in False) v))
   \<and> (32 \<le> 8 * LENGTH('e::len) \<and> 8 * LENGTH('e) < 128 \<longrightarrow>
        (\<forall>v :: 'e Value. - 0x80000000 \<le> sint v \<and> sint v \<le> 0x7FFFFFFF \<longrightarrow>
      roundtrips (serializeVarInt32_out True) (serializeVarInt32_in True) v))
   \<and> (64 \<le> 8 * LENGTH('f::len) \<and> 8 * LENGTH('f) < 128 \<longrightarrow>
        (\<forall>v :: 'f Value. - 0x8000000000000000 \<le> sint v \<and> sint v \<le> 0x7FFFFFFFFFFFFFFF \<longrightarrow>
      roundtrips (serializeVarInt64_out True) (serializeVarInt64_in True) v))"
proof (intro conjI allI impI)
  fix v :: "'a Value" assume "uint v \<le> 1"
  with bounds_u1 have "roundtrips (\<lambda>stream v. serializeVarInt_out False 1 stream v 0 1)
           (\<lambda>istream. serializeVarInt_in False 1 istream 0 1) v"
    by (intro roundtrips_unsigned [where k = 1]) simp_all
  then show "roundtrips (serializeVarUInt1_out False) (serializeVarUInt1_in False) v"
    unfolding serializeVarUInt1_out_def [abs_def] serializeVarUInt1_in_def [abs_def] .
next
  fix v :: "'b Value" assume "uint v \<le> 127"
  with bounds_u7 have "roundtrips (\<lambda>stream v. serializeVarInt_out False 7 stream v 0 127)
           (\<lambda>istream. serializeVarInt_in False 7 istream 0 127) v"
    by (intro roundtrips_unsigned [where k = 127]) simp_all
  then show "roundtrips (serializeVarUInt7_out False) (serializeVarUInt7_in False) v"
    unfolding serializeVarUInt7_out_def [abs_def] serializeVarUInt7_in_def [abs_def] .
next
  fix v :: "'c Value" assume "32 \<le> 8 * LENGTH('c)" "uint v \<le> 0xFFFFFFFF"
  with bounds_u32 have "roundtrips (\<lambda>stream v. serializeVarInt_out False 32 stream v 0 0xFFFFFFFF)
           (\<lambda>istream. serializeVarInt_in False 32 istream 0 0xFFFFFFFF) v"
    by (intro roundtrips_unsigned [where k = "0xFFFFFFFF"]) simp_all
  then show "roundtrips (serializeVarUInt32_out False) (serializeVarUInt32_in False) v"
    unfolding serializeVarUInt32_out_def [abs_def] serializeVarUInt32_in_def [abs_def] .
next
  fix v :: "'d Value" assume "64 \<le> 8 * LENGTH('d)" "uint v \<le> 0xFFFFFFFFFFFFFFFF"
  with bounds_u64 have "roundtrips (\<lambda>stream v. serializeVarInt_out False 64 stream v 0 0xFFFFFFFFFFFFFFFF)
           (\<lambda>istream. serializeVarInt_in False 64 istream 0 0xFFFFFFFFFFFFFFFF) v"
    by (intro roundtrips_unsigned [where k = "0xFFFFFFFFFFFFFFFF"]) simp_all
  then show "roundtrips (serializeVarUInt64_out False) (serializeVarUInt64_in False) v"
    unfolding serializeVarUInt64_out_def [abs_def] serializeVarUInt64_in_def [abs_def] .
next
  fix v :: "'e Value"
  assume a: "32 \<le> 8 * LENGTH('e) \<and> 8 * LENGTH('e) < 128" "- 0x80000000 \<le> sint v \<and> sint v \<le> 0x7FFFFFFF"
  then have "roundtrips (\<lambda>stream v. serializeVarInt_out True 32 stream v (- 0x80000000) 0x7FFFFFFF)
           (\<lambda>istream. serializeVarInt_in True 32 istream (- 0x80000000) 0x7FFFFFFF) v"
    using bounds_s32 [where 'n = 'e] by (intro roundtrips_signed) simp_all
  then show "roundtrips (serializeVarInt32_out True) (serializeVarInt32_in True) v"
    unfolding serializeVarInt32_out_def [abs_def] serializeVarInt32_in_def [abs_def] .
next
  fix v :: "'f Value"
  assume "64 \<le> 8 * LENGTH('f) \<and> 8 * LENGTH('f) < 128"
    "- 0x8000000000000000 \<le> sint v \<and> sint v \<le> 0x7FFFFFFFFFFFFFFF"
  then have "roundtrips (\<lambda>stream v. serializeVarInt_out True 64 stream v (- 0x8000000000000000) 0x7FFFFFFFFFFFFFFF)
           (\<lambda>istream. serializeVarInt_in True 64 istream (- 0x8000000000000000) 0x7FFFFFFFFFFFFFFF) v"
    using bounds_s64 [where 'n = 'f] by (intro roundtrips_signed) simp_all
  then show "roundtrips (serializeVarInt64_out True) (serializeVarInt64_in True) v"
    unfolding serializeVarInt64_out_def [abs_def] serializeVarInt64_in_def [abs_def] .
qed

theorem varint_roundtrip_witness:
  "serializeVarUInt32_in False
      (newMemoryInputStream
         (arrayAt 0x1000 (getBytes (snd (serializeVarUInt32_out False newArrayOutputStream (624485 :: 32 word)))))
         0x1000 3)
     = (Inr (624485 :: 32 word),
        \<lparr> memory = arrayAt 0x1000 [0xE5, 0x8E, 0x26], next = 0x1003, end = 0x1003 \<rparr>)
   \<and> serializeVarInt32_in True
      (newMemoryInputStream
         (arrayAt 0x1000 (getBytes (snd (serializeVarInt32_out True newArrayOutputStream (- 123456 :: 32 word)))))
         0x1000 3)
     = (Inr (- 123456 :: 32 word),
        \<lparr> memory = arrayAt 0x1000 [0xC0, 0xBB, 0x78], next = 0x1003, end = 0x1003 \<rparr>)"
proof -
  have g0: "getBytes newArrayOutputStream = []" by code_simp
  have inv0: "nextIndex newArrayOutputStream \<le> length (bytes newArrayOutputStream)"
    by (simp add: newArrayOutputStream_def)
  have g1: "getBytes (snd (serializeVarUInt32_out False newArrayOutputStream (624485 :: 32 word)))
              = [0xE5, 0x8E, 0x26]" by code_simp
  have g2: "getBytes (snd (serializeVarInt32_out True newArrayOutputStream (- 123456 :: 32 word)))
              = [0xC0, 0xBB, 0x78]" by code_simp
  have h1: "holds \<lparr> memory = arrayAt 0x1000 [0xE5, 0x8E, 0x26], next = 0x1000, end = 0x1003 \<rparr>
              [0xE5, 0x8E, 0x26]" by code_simp
  have h2: "holds \<lparr> memory = arrayAt 0x1000 [0xC0, 0xBB, 0x78], next = 0x1000, end = 0x1003 \<rparr>
              [0xC0, 0xBB, 0x78]" by code_simp
  note u32 = varint_roundtrip [where 'c = 4, THEN conjunct2, THEN conjunct2, THEN conjunct1,
      rule_format]
  note s32 = varint_roundtrip [where 'e = 4, THEN conjunct2, THEN conjunct2, THEN conjunct2,
      THEN conjunct2, THEN conjunct1, rule_format]
  have "roundtrips (serializeVarUInt32_out False) (serializeVarUInt32_in False) (624485 :: 32 word)"
    by (rule u32) simp_all
  from this [unfolded roundtrips_def, rule_format, OF inv0, THEN conjunct2, THEN conjunct2,
      unfolded g0 g1]
  have a: "serializeVarUInt32_in False
      \<lparr> memory = arrayAt 0x1000 [0xE5, 0x8E, 0x26], next = 0x1000, end = 0x1003 \<rparr>
     = (Inr (624485 :: 32 word),
        \<lparr> memory = arrayAt 0x1000 [0xE5, 0x8E, 0x26], next = 0x1003, end = 0x1003 \<rparr>)"
    using h1 by simp
  have "roundtrips (serializeVarInt32_out True) (serializeVarInt32_in True) (- 123456 :: 32 word)"
    by (rule s32) simp_all
  from this [unfolded roundtrips_def, rule_format, OF inv0, THEN conjunct2, THEN conjunct2,
      unfolded g0 g2]
  have b: "serializeVarInt32_in True
      \<lparr> memory = arrayAt 0x1000 [0xC0, 0xBB, 0x78], next = 0x1000, end = 0x1003 \<rparr>
     = (Inr (- 123456 :: 32 word),
        \<lparr> memory = arrayAt 0x1000 [0xC0, 0xBB, 0x78], next = 0x1003, end = 0x1003 \<rparr>)"
    using h2 by simp
  from a b show ?thesis by (simp add: g1 g2 newMemoryInputStream_def)
qed

section \<open>Decoding: the final byte\<close>




section \<open>The range check\<close>

text \<open>
  C5. A value outside \<open>[minValue, maxValue]\<close> is rejected with the message
  \<^verbatim>\<open>out-of-range value: <min><=<value><=<max>\<close>: by the encoder with the stream unchanged, and
  by the decoder after the bytes are read (whenever the same input decodes to \<open>v\<close> under some
  bounds, leaving the stream \<open>istream'\<close>, the call under \<open>[minValue, maxValue]\<close> throws from
  that same stream \<open>istream'\<close>).
\<close>

theorem out_of_range_rejected:
  fixes v minValue maxValue :: "'n::len Value"
  assumes "ival sg v < ival sg minValue \<or> ival sg maxValue < ival sg v"
  shows "serializeVarInt_out sg maxBits stream v minValue maxValue =
           (Inl (FatalSerializationException (''out-of-range value: '' @ to_string (ival sg minValue)
              @ ''<='' @ to_string (ival sg v) @ ''<='' @ to_string (ival sg maxValue))), stream)
       \<and> (\<forall>lo hi istream istream'.
            serializeVarInt_in sg maxBits istream lo hi = (Inr v, istream') \<longrightarrow>
            serializeVarInt_in sg maxBits istream minValue maxValue =
              (Inl (FatalSerializationException (''out-of-range value: '' @ to_string (ival sg minValue)
                 @ ''<='' @ to_string (ival sg v) @ ''<='' @ to_string (ival sg maxValue))), istream'))"
  using assms
  by (auto simp add: serializeVarInt_out_def serializeVarInt_in_def out_of_range_def Let_def
      split: prod.splits sum.splits if_splits)

text \<open>
  The encoder on 2 with bounds \<open>[0, 1]\<close>, and the decoder on the byte 7F (the value \<open>-1\<close>) with
  bounds \<open>[0, 10]\<close>.
\<close>

theorem out_of_range_rejected_witness:
  "serializeVarUInt1_out False newArrayOutputStream (2 :: 8 word)
     = (Inl (FatalSerializationException ''out-of-range value: 0<=2<=1''), newArrayOutputStream)
   \<and> serializeVarInt_in True 32 \<lparr> memory = arrayAt 0x1000 [0x7F], next = 0x1000, end = 0x1001 \<rparr>
         (0 :: 32 word) 10
     = (Inl (FatalSerializationException ''out-of-range value: 0<=-1<=10''),
        \<lparr> memory = arrayAt 0x1000 [0x7F], next = 0x1001, end = 0x1001 \<rparr>)"
proof -
  have "fst (serializeVarInt_in True 32
          \<lparr> memory = arrayAt 0x1000 [0x7F], next = 0x1000, end = 0x1001 \<rparr>
          (- 0x80000000) 0x7FFFFFFF) = Inr (- 1 :: 32 word)"
    and "next (snd (serializeVarInt_in True 32
          \<lparr> memory = arrayAt 0x1000 [0x7F], next = 0x1000, end = 0x1001 \<rparr>
          (- 0x80000000) (0x7FFFFFFF :: 32 word))) = 0x1001"
    by code_simp+
  then have d: "serializeVarInt_in True 32
          \<lparr> memory = arrayAt 0x1000 [0x7F], next = 0x1000, end = 0x1001 \<rparr>
          (- 0x80000000) 0x7FFFFFFF
      = (Inr (- 1 :: 32 word), \<lparr> memory = arrayAt 0x1000 [0x7F], next = 0x1001, end = 0x1001 \<rparr>)"
    using decodedI by fastforce
  have s: "to_string 0 = ''0''" "to_string 1 = ''1''" "to_string 2 = ''2''" "to_string 10 = ''10''"
      "to_string (- 1) = ''-1''"
    by (simp_all add: to_string_def digits.simps digit_def)
  show ?thesis
    using out_of_range_rejected [where sg = False and v = "2 :: 8 word" and minValue = 0
        and maxValue = 1 and maxBits = 1 and stream = newArrayOutputStream]
      out_of_range_rejected [where sg = True and v = "- 1 :: 32 word" and minValue = 0
        and maxValue = 10 and maxBits = 32 and stream = newArrayOutputStream]
      d
    by (simp add: serializeVarUInt1_out_def ival_def s)
qed

section \<open>The input stream\<close>



section \<open>The encoder on two values\<close>

text \<open>
  C8. Encoding the unsigned 624485 as varuint32 writes E5 8E 26, encoding the signed -123456
  as varint32 writes C0 BB 78, and the signed loop stops (\<^verbatim>\<open>more\<close> is false) exactly when the
  shifted value is 0 and bit 6 of the group is clear, or it is -1 and bit 6 of the group is set.
\<close>

theorem encode_examples:
  "fst (serializeVarUInt32_out False newArrayOutputStream (624485 :: 32 word)) = Inr ()
   \<and> getBytes (snd (serializeVarUInt32_out False newArrayOutputStream (624485 :: 32 word)))
       = [0xE5, 0x8E, 0x26]
   \<and> fst (serializeVarInt32_out True newArrayOutputStream (- 123456 :: 32 word)) = Inr ()
   \<and> getBytes (snd (serializeVarInt32_out True newArrayOutputStream (- 123456 :: 32 word)))
       = [0xC0, 0xBB, 0x78]
   \<and> (\<forall>(v :: 'a::len word) b.
         (\<not> continues True v b) = ((v = 0 \<and> b AND 0x40 = 0) \<or> (v = - 1 \<and> b AND 0x40 \<noteq> 0)))"
proof -
  have "fst (serializeVarUInt32_out False newArrayOutputStream (624485 :: 32 word)) = Inr ()"
    by code_simp
  moreover have "getBytes (snd (serializeVarUInt32_out False newArrayOutputStream (624485 :: 32 word)))
       = [0xE5, 0x8E, 0x26]"
    by code_simp
  moreover have "fst (serializeVarInt32_out True newArrayOutputStream (- 123456 :: 32 word)) = Inr ()"
    by code_simp
  moreover have "getBytes (snd (serializeVarInt32_out True newArrayOutputStream (- 123456 :: 32 word)))
       = [0xC0, 0xBB, 0x78]"
    by code_simp
  moreover have "(\<not> continues True v b) = ((v = 0 \<and> b AND 0x40 = 0) \<or> (v = - 1 \<and> b AND 0x40 \<noteq> 0))"
    for v :: "'a word" and b
    by (auto simp add: continues_def)
  ultimately show ?thesis by blast
qed

theorem encode_examples_witness:
  "\<not> continues True (0 :: 32 word) 0x3F \<and> \<not> continues True (- 1 :: 32 word) 0x40"
  using encode_examples [where 'a = 32] by simp

section \<open>Shape of the encoder's output\<close>

text \<open>
  C10, as amended. For every value within the bounds the encoder does not throw and appends
  at least one byte, all but the last with bit 0x80 set and the last with it clear. When the
  bounds are \<open>maxBits\<close>-bit values, so is the value; when the value is a \<open>maxBits\<close>-bit value
  (\<open>maxBits > 0\<close>) the encoder appends at most \<open>maxBytes maxBits\<close> bytes; and whenever it appends
  at most \<open>maxBytes maxBits\<close> bytes, a decoder started on an input stream that holds these bytes
  at its cursor leaves the cursor just after them.
\<close>

theorem encoder_output_shape:
  fixes v minValue maxValue :: "'n::len Value"
  assumes "ival sg minValue \<le> ival sg v" and "ival sg v \<le> ival sg maxValue"
    and "nextIndex stream \<le> length (bytes stream)"
  shows "\<exists>bs. fst (serializeVarInt_out sg maxBits stream v minValue maxValue) = Inr ()
     \<and> getBytes (snd (serializeVarInt_out sg maxBits stream v minValue maxValue)) = getBytes stream @ bs
     \<and> bs \<noteq> []
     \<and> (\<forall>b \<in> set (butlast bs). b AND 0x80 \<noteq> 0) \<and> last bs AND 0x80 = 0
     \<and> (fits sg maxBits minValue \<and> fits sg maxBits maxValue \<longrightarrow> fits sg maxBits v)
     \<and> (0 < maxBits \<and> fits sg maxBits v \<longrightarrow> length bs \<le> maxBytes maxBits)
     \<and> (length bs \<le> maxBytes maxBits \<longrightarrow>
          (\<forall>istream :: MemoryInputStream. holds istream bs \<longrightarrow>
             snd (serializeVarInt_in sg maxBits istream minValue maxValue)
               = istream \<lparr> next := next istream + word_of_nat (length bs) \<rparr>))"
proof (intro exI [of _ "leb sg v"] conjI allI impI)
  show "fst (serializeVarInt_out sg maxBits stream v minValue maxValue) = Inr ()"
    using assms by (rule serializeVarInt_out_leb(1))
  show "getBytes (snd (serializeVarInt_out sg maxBits stream v minValue maxValue))
          = getBytes stream @ leb sg v"
    using assms by (rule serializeVarInt_out_leb(2))
  show "leb sg v \<noteq> []" using leb_structure [of sg v] by simp
  show "\<forall>b \<in> set (butlast (leb sg v)). b AND 0x80 \<noteq> 0" using leb_structure [of sg v] by simp
  show "last (leb sg v) AND 0x80 = 0" using leb_structure [of sg v] by simp
next
  assume "fits sg maxBits minValue \<and> fits sg maxBits maxValue"
  then show "fits sg maxBits v" using assms(1,2) fits_between by blast
next
  assume "0 < maxBits \<and> fits sg maxBits v"
  then show "length (leb sg v) \<le> maxBytes maxBits" using leb_length_maxBytes by blast
next
  fix istream :: MemoryInputStream
  assume "length (leb sg v) \<le> maxBytes maxBits" and "holds istream (leb sg v)"
  then show "snd (serializeVarInt_in sg maxBits istream minValue maxValue)
            = istream \<lparr> next := next istream + word_of_nat (length (leb sg v)) \<rparr>"
    by (rule serializeVarInt_in_consumes_len)
qed

text \<open>
  The signed -123456 as varint32: three bytes, at most \<open>maxBytes 32 = 5\<close>, and the decoder on
  a stream of these three bytes and a fourth stops after the third.
\<close>

theorem encoder_output_shape_witness:
  "fst (serializeVarInt_out True 32 newArrayOutputStream (- 123456 :: 32 word) (- 0x80000000) 0x7FFFFFFF)
     = Inr ()
   \<and> getBytes (snd (serializeVarInt_out True 32 newArrayOutputStream (- 123456 :: 32 word)
         (- 0x80000000) 0x7FFFFFFF)) = [0xC0, 0xBB, 0x78]
   \<and> length [0xC0, 0xBB, 0x78 :: uint8] \<le> maxBytes 32
   \<and> snd (serializeVarInt_in True 32
         \<lparr> memory = arrayAt 0x1000 [0xC0, 0xBB, 0x78, 0xFF], next = 0x1000, end = 0x1004 \<rparr>
         (- 0x80000000 :: 32 word) 0x7FFFFFFF)
       = \<lparr> memory = arrayAt 0x1000 [0xC0, 0xBB, 0x78, 0xFF], next = 0x1003, end = 0x1004 \<rparr>"
proof -
  have g0: "getBytes newArrayOutputStream = []" by code_simp
  have g: "getBytes (snd (serializeVarInt_out True 32 newArrayOutputStream (- 123456 :: 32 word)
         (- 0x80000000) 0x7FFFFFFF)) = [0xC0, 0xBB, 0x78]" by code_simp
  have h: "holds \<lparr> memory = arrayAt 0x1000 [0xC0, 0xBB, 0x78, 0xFF], next = 0x1000, end = 0x1004 \<rparr>
             [0xC0, 0xBB, 0x78]" by code_simp
  have f: "fits True 32 (- 0x80000000 :: 32 word)" "fits True 32 (0x7FFFFFFF :: 32 word)"
    by (simp_all add: fits_def)
  from encoder_output_shape [of True "- 0x80000000 :: 32 word" "- 123456" "0x7FFFFFFF"
      newArrayOutputStream 32]
  obtain bs where bs:
    "fst (serializeVarInt_out True 32 newArrayOutputStream (- 123456 :: 32 word) (- 0x80000000) 0x7FFFFFFF)
       = Inr ()"
    "getBytes (snd (serializeVarInt_out True 32 newArrayOutputStream (- 123456 :: 32 word)
         (- 0x80000000) 0x7FFFFFFF)) = getBytes newArrayOutputStream @ bs"
    "fits True 32 (- 0x80000000 :: 32 word) \<and> fits True 32 (0x7FFFFFFF :: 32 word)
       \<longrightarrow> fits True 32 (- 123456 :: 32 word)"
    "0 < (32 :: nat) \<and> fits True 32 (- 123456 :: 32 word) \<longrightarrow> length bs \<le> maxBytes 32"
    "length bs \<le> maxBytes 32 \<longrightarrow>
          (\<forall>istream :: MemoryInputStream. holds istream bs \<longrightarrow>
             snd (serializeVarInt_in True 32 istream (- 0x80000000 :: 32 word) 0x7FFFFFFF)
               = istream \<lparr> next := next istream + word_of_nat (length bs) \<rparr>)"
    by (auto simp add: ival_def newArrayOutputStream_def)
  from bs(2) have e: "bs = [0xC0, 0xBB, 0x78]" by (simp add: g g0)
  from bs(3) f have "fits True 32 (- 123456 :: 32 word)" by blast
  with bs(4) have l: "length bs \<le> maxBytes 32" by simp
  from bs(5) l h have "snd (serializeVarInt_in True 32
         \<lparr> memory = arrayAt 0x1000 [0xC0, 0xBB, 0x78, 0xFF], next = 0x1000, end = 0x1004 \<rparr>
         (- 0x80000000 :: 32 word) 0x7FFFFFFF)
       = \<lparr> memory = arrayAt 0x1000 [0xC0, 0xBB, 0x78, 0xFF], next = 0x1000, end = 0x1004 \<rparr>
           \<lparr> next := 0x1000 + word_of_nat (length bs) \<rparr>"
    unfolding e by fastforce
  then show ?thesis using bs(1) l unfolding e by (simp add: g)
qed

text \<open>
  The bound of \<open>maxBytes maxBits\<close> bytes fails when the bounds are wider than \<open>maxBits\<close> bits:
  the encoder does not use \<open>maxBits\<close>. With \<open>maxBits = 7\<close> and the bounds \<open>[0, 1000]\<close> the
  unsigned 200 takes two bytes, and so does 100 through \<^verbatim>\<open>serializeVarUInt7\<close> on a signed type;
  \<open>maxBytes 7\<close> is 1, and the decoder stops after the first of the two bytes.
\<close>

theorem encoder_exceeds_maxBytes:
  "fst (serializeVarInt_out False 7 newArrayOutputStream (200 :: 32 word) 0 1000) = Inr ()
   \<and> getBytes (snd (serializeVarInt_out False 7 newArrayOutputStream (200 :: 32 word) 0 1000))
       = [0xC8, 0x01]
   \<and> fst (serializeVarUInt7_out True newArrayOutputStream (100 :: 32 word)) = Inr ()
   \<and> getBytes (snd (serializeVarUInt7_out True newArrayOutputStream (100 :: 32 word))) = [0xE4, 0x00]
   \<and> maxBytes 7 = 1
   \<and> next (snd (serializeVarInt_in False 7
         \<lparr> memory = arrayAt 0x1000 [0xC8, 0x01], next = 0x1000, end = 0x1002 \<rparr>
         (0 :: 32 word) 1000)) = 0x1001"
proof -
  have "fst (serializeVarInt_out False 7 newArrayOutputStream (200 :: 32 word) 0 1000) = Inr ()"
    by code_simp
  moreover have "getBytes (snd (serializeVarInt_out False 7 newArrayOutputStream (200 :: 32 word) 0 1000))
       = [0xC8, 0x01]"
    by code_simp
  moreover have "fst (serializeVarUInt7_out True newArrayOutputStream (100 :: 32 word)) = Inr ()"
    by code_simp
  moreover have "getBytes (snd (serializeVarUInt7_out True newArrayOutputStream (100 :: 32 word)))
       = [0xE4, 0x00]"
    by code_simp
  moreover have "maxBytes 7 = 1" by (simp add: maxBytes_def)
  moreover have "next (snd (serializeVarInt_in False 7
         \<lparr> memory = arrayAt 0x1000 [0xC8, 0x01], next = 0x1000, end = 0x1002 \<rparr>
         (0 :: 32 word) 1000)) = 0x1001"
    by code_simp
  ultimately show ?thesis by blast
qed

section \<open>Lookup by address\<close>

lemma emplace_keys_subset: "fst ` set (emplace k v M) \<subseteq> insert k (fst ` set M)"
proof (induction M)
  case Nil
  then show ?case by simp
next
  case (Cons e M)
  obtain k' v' where e: "e = (k', v')" by (cases e)
  from Cons.IH show ?case unfolding e by (cases "k < k'"; cases "k = k'") auto
qed

lemma emplace_sorted:
  "sorted_wrt (<) (map fst M) \<Longrightarrow> sorted_wrt (<) (map fst (emplace k v M))"
proof (induction M)
  case Nil
  then show ?case by simp
next
  case (Cons e M)
  obtain k' v' where e: "e = (k', v')" by (cases e)
  from Cons.prems have s: "sorted_wrt (<) (map fst M)" and lt: "\<forall>x \<in> set M. k' < fst x"
    by (auto simp add: e)
  note set_sub = emplace_keys_subset [of k v M]
  show ?case
  proof (cases "k < k'")
    case True
    with Cons.prems lt show ?thesis by (auto simp add: e)
  next
    case False
    show ?thesis
    proof (cases "k = k'")
      case True
      with Cons.prems show ?thesis by (simp add: e)
    next
      case ne: False
      with False have "k' < k" by simp
      have "\<forall>x \<in> set (emplace k v M). k' < fst x"
      proof
        fix x assume "x \<in> set (emplace k v M)"
        then have "fst x \<in> insert k (fst ` set M)" using set_sub by blast
        then show "k' < fst x" using lt \<open>k' < k\<close> by auto
      qed
      with False ne Cons.IH [OF s] show ?thesis by (simp add: e)
    qed
  qed
qed

lemma set_emplace:
  "sorted_wrt (<) (map fst M) \<Longrightarrow>
     set (emplace k v M) = (if k \<in> fst ` set M then set M else insert (k, v) (set M))"
proof (induction M)
  case Nil
  then show ?case by simp
next
  case (Cons e M)
  obtain k' v' where e: "e = (k', v')" by (cases e)
  from Cons.prems have s: "sorted_wrt (<) (map fst M)" and lt: "\<forall>x \<in> set M. k' < fst x"
    by (auto simp add: e)
  show ?case
  proof (cases "k < k'")
    case True
    with lt have "k \<notin> fst ` set ((k', v') # M)" by force
    with True show ?thesis by (simp add: e)
  next
    case False
    show ?thesis
    proof (cases "k = k'")
      case True
      then show ?thesis by (simp add: e)
    next
      case ne: False
      with False Cons.IH [OF s] show ?thesis by (auto simp add: e)
    qed
  qed
qed

lemma foldl_emplace:
  fixes key :: "'x \<Rightarrow> Uptr"
  defines "M xs \<equiv> foldl (\<lambda>M x. emplace (key x) x M) [] xs"
  shows "sorted_wrt (<) (map fst (M xs)) \<and> set (M xs) \<subseteq> (\<lambda>x. (key x, x)) ` set xs
           \<and> fst ` set (M xs) = key ` set xs"
proof (induction xs rule: rev_induct)
  case Nil
  then show ?case by (simp add: M_def)
next
  case (snoc x xs)
  have step: "M (xs @ [x]) = emplace (key x) x (M xs)" by (simp add: M_def)
  from snoc have s: "sorted_wrt (<) (map fst (M xs))" by simp
  show ?case
    unfolding step using snoc emplace_sorted [OF s, of "key x" x] set_emplace [OF s, of "key x" x]
    by (auto split: if_splits)
qed

lemma upper_bound_None: "upper_bound m a = None \<longleftrightarrow> (\<forall>(k, v) \<in> set m. k \<le> a)"
  by (auto simp add: upper_bound_def find_None_iff not_less)

lemma upper_bound_Some:
  assumes "sorted_wrt (<) (map fst m)"
  shows "upper_bound m a = Some (k, v) \<longleftrightarrow>
           (k, v) \<in> set m \<and> a < k \<and> (\<forall>(k', v') \<in> set m. a < k' \<longrightarrow> k \<le> k')"
  using assms
proof (induction m)
  case Nil
  then show ?case by (simp add: upper_bound_def)
next
  case (Cons e m)
  obtain k0 v0 where e: "e = (k0, v0)" by (cases e)
  from Cons.prems have s: "sorted_wrt (<) (map fst m)" and lt: "\<forall>(k', v') \<in> set m. k0 < k'"
    by (auto simp add: e)
  have ub: "upper_bound ((k0, v0) # m) a = (if a < k0 then Some (k0, v0) else upper_bound m a)"
    by (simp add: upper_bound_def)
  show ?case
  proof (cases "a < k0")
    case True
    have "(k, v) \<in> set m \<Longrightarrow> \<not> (\<forall>(k', v') \<in> set ((k0, v0) # m). a < k' \<longrightarrow> k \<le> k')"
    proof
      assume "(k, v) \<in> set m" and *: "\<forall>(k', v') \<in> set ((k0, v0) # m). a < k' \<longrightarrow> k \<le> k'"
      then have "k0 < k" using lt by auto
      moreover from * True have "k \<le> k0" by auto
      ultimately show False by simp
    qed
    moreover have "\<forall>(k', v') \<in> set ((k0, v0) # m). a < k' \<longrightarrow> k0 \<le> k'"
      using lt by (auto simp add: less_imp_le)
    ultimately show ?thesis using True unfolding e ub by auto
  next
    case False
    then show ?thesis using lt Cons.IH [OF s] unfolding e ub by (auto simp add: not_less)
  qed
qed

lemma test_imp_covers:
  assumes "baseAddress f \<le> a" and "a < baseAddress f + numBytes f"
  shows "covers f a"
proof -
  from assms have "baseAddress f \<le> baseAddress f + numBytes f" by simp
  then have "unat (baseAddress f + numBytes f) = unat (baseAddress f) + unat (numBytes f)"
    by (simp add: no_olen_add_nat unat_add_lem [THEN iffD1])
  with assms show ?thesis by (simp add: covers_def word_le_nat_alt word_less_nat_alt)
qed

lemma upper_bound_in: "upper_bound m a = Some (k, v) \<Longrightarrow> (k, v) \<in> set m \<and> a < k"
  by (auto simp add: upper_bound_def find_Some_iff dest: nth_mem)

lemma lookup_result:
  "fst (getJITFunctionByAddress g a) =
     (case upper_bound (addressToModuleMap g) a of
        None \<Rightarrow> None
      | Some (k, m) \<Rightarrow>
          (case upper_bound (addressToFunctionMap m) a of
             None \<Rightarrow> None
           | Some (kf, f) \<Rightarrow>
               if baseAddress f \<le> a \<and> a < baseAddress f + numBytes f then Some f else None))"
  by (simp add: getJITFunctionByAddress_def lock_def access_def unlock_def Let_def
      split: option.splits prod.splits)

lemma lookup_Some_covers:
  assumes "fst (getJITFunctionByAddress g a) = Some f"
  shows "\<exists>k m kf. (k, m) \<in> set (addressToModuleMap g) \<and> (kf, f) \<in> set (addressToFunctionMap m)
           \<and> covers f a"
  using assms unfolding lookup_result
  by (auto split: option.splits prod.splits if_splits dest!: upper_bound_in intro: test_imp_covers)

lemma upper_bound_foldl:
  fixes key :: "'x \<Rightarrow> Uptr" and rng :: "'x \<Rightarrow> nat \<times> nat"
  assumes sep: "separated (map rng xs)"
    and keys: "\<forall>y \<in> set xs. unat (key y) = snd (rng y) \<and> fst (rng y) \<le> snd (rng y)"
    and x: "x \<in> set xs" and a: "fst (rng x) \<le> unat a" "unat a < snd (rng x)"
  shows "upper_bound (foldl (\<lambda>M x. emplace (key x) x M) [] xs) a = Some (key x, x)"
proof -
  let ?M = "foldl (\<lambda>M x. emplace (key x) x M) [] xs"
  note fe = foldl_emplace [of key xs]
  from fe have sorted: "sorted_wrt (<) (map fst ?M)"
    and sub: "set ?M \<subseteq> (\<lambda>x. (key x, x)) ` set xs"
    and ks: "fst ` set ?M = key ` set xs" by simp_all
  from sep have "distinct (map (\<lambda>y. snd (rng y)) xs)" by (simp add: separated_def comp_def)
  then have inj: "inj_on (\<lambda>y. snd (rng y)) (set xs)" by (simp add: distinct_map)
  from sep have pair: "rng y = rng z \<or> snd (rng y) \<le> fst (rng z) \<or> snd (rng z) \<le> fst (rng y)"
    if "y \<in> set xs" "z \<in> set xs" for y z
    using that by (auto simp add: separated_def list_all_iff)
  have mem: "(key x, x) \<in> set ?M"
  proof -
    from x ks have "key x \<in> fst ` set ?M" by blast
    then obtain y where y: "(key x, y) \<in> set ?M" by force
    with sub have yx: "y \<in> set xs" "key y = key x" by auto
    with keys x have "snd (rng y) = snd (rng x)" by metis
    with inj yx(1) x have "y = x" by (auto dest: inj_onD)
    with y show ?thesis by simp
  qed
  have ak: "a < key x" using a(2) keys x by (simp add: word_less_nat_alt)
  have min: "\<forall>(k', v') \<in> set ?M. a < k' \<longrightarrow> key x \<le> k'"
  proof (clarify)
    fix k' v' assume in_M: "(k', v') \<in> set ?M" and lt: "a < k'"
    with sub have v': "v' \<in> set xs" and k': "k' = key v'" by auto
    from keys v' have kv: "unat (key v') = snd (rng v')" "fst (rng v') \<le> snd (rng v')" by simp_all
    from keys x have kx: "unat (key x) = snd (rng x)" by simp
    from pair [OF x v'] show "key x \<le> k'"
    proof (elim disjE)
      assume "rng x = rng v'"
      with kv kx show ?thesis by (simp add: k' word_le_nat_alt)
    next
      assume "snd (rng x) \<le> fst (rng v')"
      with kv kx show ?thesis by (simp add: k' word_le_nat_alt)
    next
      assume "snd (rng v') \<le> fst (rng x)"
      with a(1) have "snd (rng v') \<le> unat a" by simp
      moreover from lt have "unat a < snd (rng v')" by (simp add: k' word_less_nat_alt kv)
      ultimately show ?thesis by simp
    qed
  qed
  show ?thesis using upper_bound_Some [OF sorted, of a "key x" x] mem ak min by blast
qed

lemma lookup_loaded:
  assumes l: "loaded P ms g" and d: "nonOverlapping P ms"
    and m: "m \<in> set ms" and f: "f \<in> set (functions m)" and c: "covers f a"
  shows "fst (getJITFunctionByAddress g a) = Some f"
proof -
  from l have gm: "addressToModuleMap g = indexOf P ms" by (simp add: loaded_def)
  from l m have fm: "addressToFunctionMap m = functionMapOf (functions m)"
    by (simp add: loaded_def list_all_iff)
  from d have sepm: "separated (map (imageRange P) ms)" by (simp add: nonOverlapping_def)
  from d have img: "snd (imageRange P m') < 2 ^ 64" if "m' \<in> set ms" for m'
    using that by (simp add: nonOverlapping_def list_all_iff)
  from d m have sepf: "separated (map functionRange (functions m))"
    by (simp add: nonOverlapping_def list_all_iff)
  from d m have ins: "fst (imageRange P m) \<le> fst (functionRange f')
      \<and> snd (functionRange f') \<le> snd (imageRange P m)" if "f' \<in> set (functions m)" for f'
    using that by (simp add: nonOverlapping_def list_all_iff)
  have km: "unat (imageEnd P m') = snd (imageRange P m') \<and> fst (imageRange P m') \<le> snd (imageRange P m')"
    if "m' \<in> set ms" for m'
  proof -
    from img [OF that] have "unat (imageBaseAddress (memoryManager m'))
        + unat (getNumImageBytes P (memoryManager m')) < 2 ^ LENGTH(64)"
      by (simp add: imageRange_def)
    then show ?thesis by (simp add: imageEnd_def imageRange_def unat_add_lem [THEN iffD1])
  qed
  have kf: "unat (baseAddress f' + numBytes f') = snd (functionRange f')
      \<and> fst (functionRange f') \<le> snd (functionRange f')"
    if "f' \<in> set (functions m)" for f'
  proof -
    from ins [OF that] img [OF m] have "unat (baseAddress f') + unat (numBytes f') < 2 ^ LENGTH(64)"
      by (simp add: functionRange_def)
    then show ?thesis by (simp add: functionRange_def unat_add_lem [THEN iffD1])
  qed
  from c have cf: "fst (functionRange f) \<le> unat a" "unat a < snd (functionRange f)"
    by (simp_all add: covers_def functionRange_def)
  with ins [OF f] have ci: "fst (imageRange P m) \<le> unat a" "unat a < snd (imageRange P m)"
    by simp_all
  have ub1: "upper_bound (addressToModuleMap g) a = Some (imageEnd P m, m)"
    unfolding gm indexOf_def using sepm _ m ci
    by (rule upper_bound_foldl) (simp add: km)
  have ub2: "upper_bound (addressToFunctionMap m) a = Some (baseAddress f + numBytes f, f)"
    unfolding fm functionMapOf_def using sepf _ f cf
    by (rule upper_bound_foldl) (simp add: kf)
  have "baseAddress f \<le> a" "a < baseAddress f + numBytes f"
    using cf kf [OF f] by (simp_all add: word_le_nat_alt word_less_nat_alt functionRange_def)
  then show ?thesis by (simp add: lookup_result ub1 ub2)
qed

lemma lookup_loaded_None:
  assumes l: "loaded P ms g"
    and n: "\<forall>m \<in> set ms. \<forall>f \<in> set (functions m). \<not> covers f a"
  shows "fst (getJITFunctionByAddress g a) = None"
proof (cases "fst (getJITFunctionByAddress g a)")
  case None
  then show ?thesis .
next
  case (Some f)
  from lookup_Some_covers [OF this] obtain k m kf
    where km: "(k, m) \<in> set (addressToModuleMap g)"
      and kf: "(kf, f) \<in> set (addressToFunctionMap m)" and c: "covers f a" by blast
  from km l foldl_emplace [of "imageEnd P" ms] have m: "m \<in> set ms"
    by (auto simp add: loaded_def indexOf_def)
  with l have "addressToFunctionMap m = functionMapOf (functions m)"
    by (simp add: loaded_def list_all_iff)
  with kf foldl_emplace [of "\<lambda>f. baseAddress f + numBytes f" "functions m"]
  have "f \<in> set (functions m)" by (auto simp add: functionMapOf_def)
  with n m c show ?thesis by blast
qed

lemma loaded_empty:
  "loaded P [] \<lparr> addressToModuleMap = [], addressToModuleMapMutex = b, accessLog = l \<rparr>"
  by (simp add: loaded_def indexOf_def)

lemma loaded_registerModule:
  assumes "loaded P ms g" and "addressToFunctionMap m = functionMapOf (functions m)"
  shows "loaded P (ms @ [m]) (registerModule P m g)"
  using assms by (simp add: loaded_def indexOf_def registerModule_def access_def Let_def)

lemma functionMapOf_addFunction:
  assumes "addressToFunctionMap m = functionMapOf (functions m)"
  shows "addressToFunctionMap (addFunction f m) = functionMapOf (functions (addFunction f m))"
  using assms by (simp add: addFunction_def functionMapOf_def)

text \<open>
  C3, as amended. (1) When the state holds the loaded modules and these do not overlap, for
  every function \<open>f\<close> of a loaded module and every address \<open>a\<close> in \<open>[f.base, f.base + f.length)\<close>,
  \<^verbatim>\<open>getJITFunctionByAddress\<close> returns \<open>f\<close>. (2) When the state holds the loaded modules, for
  every address not covered by any function of a loaded module (so also \<open>f.base + f.length\<close>
  when that byte is not part of another function), it returns none; (3) and so it does in any
  state for an address that no function in the maps covers. (4) In every state the result is
  computed as follows: take the first entry of the global map with key strictly greater than
  \<open>a\<close>, none if there is none; take the first entry of that module's function map with key
  strictly greater than \<open>a\<close>, none if there is none; return that function exactly when
  \<open>f.base \<le> a < f.base + f.length\<close>. (5) On a map in key order, \<^verbatim>\<open>upper_bound\<close> is none
  exactly when no key is greater than \<open>a\<close>, and otherwise the entry with the least key greater
  than \<open>a\<close>.
\<close>

theorem lookup_by_address:
  "(loaded P ms g \<and> nonOverlapping P ms \<longrightarrow>
      (\<forall>m \<in> set ms. \<forall>f \<in> set (functions m). covers f a \<longrightarrow>
          fst (getJITFunctionByAddress g a) = Some f))
   \<and> (loaded P ms g \<and> (\<forall>m \<in> set ms. \<forall>f \<in> set (functions m). \<not> covers f a) \<longrightarrow>
          fst (getJITFunctionByAddress g a) = None)
   \<and> ((\<forall>k m kf f. (k, m) \<in> set (addressToModuleMap g) \<and> (kf, f) \<in> set (addressToFunctionMap m)
           \<longrightarrow> \<not> covers f a) \<longrightarrow> fst (getJITFunctionByAddress g a) = None)
   \<and> fst (getJITFunctionByAddress g a) =
       (case upper_bound (addressToModuleMap g) a of
          None \<Rightarrow> None
        | Some (k, m) \<Rightarrow>
            (case upper_bound (addressToFunctionMap m) a of
               None \<Rightarrow> None
             | Some (kf, f) \<Rightarrow>
                 if baseAddress f \<le> a \<and> a < baseAddress f + numBytes f then Some f else None))
   \<and> (\<forall>(M :: 'v addressMap) k v. sorted_wrt (<) (map fst M) \<longrightarrow>
        (upper_bound M a = None) = (\<forall>(k', v') \<in> set M. k' \<le> a)
        \<and> (upper_bound M a = Some (k, v))
            = ((k, v) \<in> set M \<and> a < k \<and> (\<forall>(k', v') \<in> set M. a < k' \<longrightarrow> k \<le> k')))"
proof (intro conjI impI allI ballI)
  fix m f
  assume "loaded P ms g \<and> nonOverlapping P ms" and "m \<in> set ms" and "f \<in> set (functions m)"
    and "covers f a"
  then show "fst (getJITFunctionByAddress g a) = Some f" using lookup_loaded by blast
next
  assume "loaded P ms g \<and> (\<forall>m \<in> set ms. \<forall>f \<in> set (functions m). \<not> covers f a)"
  then show "fst (getJITFunctionByAddress g a) = None" using lookup_loaded_None by blast
next
  assume *: "\<forall>k m kf f. (k, m) \<in> set (addressToModuleMap g) \<and> (kf, f) \<in> set (addressToFunctionMap m)
           \<longrightarrow> \<not> covers f a"
  show "fst (getJITFunctionByAddress g a) = None"
  proof (cases "fst (getJITFunctionByAddress g a)")
    case None
    then show ?thesis .
  next
    case (Some f)
    from lookup_Some_covers [OF this] * show ?thesis by blast
  qed
next
  show "fst (getJITFunctionByAddress g a) =
       (case upper_bound (addressToModuleMap g) a of
          None \<Rightarrow> None
        | Some (k, m) \<Rightarrow>
            (case upper_bound (addressToFunctionMap m) a of
               None \<Rightarrow> None
             | Some (kf, f) \<Rightarrow>
                 if baseAddress f \<le> a \<and> a < baseAddress f + numBytes f then Some f else None))"
    by (rule lookup_result)
next
  fix M :: "'v addressMap" and k v
  show "(upper_bound M a = None) = (\<forall>(k', v') \<in> set M. k' \<le> a)" by (rule upper_bound_None)
next
  fix M :: "'v addressMap" and k v
  assume "sorted_wrt (<) (map fst M)"
  then show "(upper_bound M a = Some (k, v))
            = ((k, v) \<in> set M \<and> a < k \<and> (\<forall>(k', v') \<in> set M. a < k' \<longrightarrow> k \<le> k'))"
    by (rule upper_bound_Some)
qed

text \<open>
  Two modules built and registered by the constructor: one with two adjacent functions
  \<open>[0x1000, 0x1040)\<close> and \<open>[0x1040, 0x1080)\<close> in the image \<open>[0x1000, 0x2000)\<close>, one with the
  function \<open>[0x3000, 0x3020)\<close> in the image \<open>[0x3000, 0x4000)\<close>. The first and last byte of the
  first function, the first byte of the second, the byte one past its end, an address
  between the images, and an address in the third function.
\<close>

theorem lookup_by_address_witness:
  "let P = \<lparr> getPageSizeLog2 = 12, allocateVirtualPages = (\<lambda>n. 0x1000),
             commitVirtualPages = (\<lambda>b n. True), USE_WINDOWS_SEH = False \<rparr>;
       f1 = \<lparr> baseAddress = 0x1000, numBytes = 0x40, offsetToOpIndexMap = [] \<rparr>;
       f2 = \<lparr> baseAddress = 0x1040, numBytes = 0x40, offsetToOpIndexMap = [] \<rparr>;
       f3 = \<lparr> baseAddress = 0x3000, numBytes = 0x20, offsetToOpIndexMap = [] \<rparr>;
       m = addFunction f2 (addFunction f1
             \<lparr> memoryManager = (newModuleMemoryManager 1) \<lparr> imageBaseAddress := 0x1000 \<rparr>,
               functions = [], addressToFunctionMap = [] \<rparr>);
       m' = addFunction f3
             \<lparr> memoryManager = (newModuleMemoryManager 1) \<lparr> imageBaseAddress := 0x3000 \<rparr>,
               functions = [], addressToFunctionMap = [] \<rparr>;
       g = registerModule P m (registerModule P m'
             \<lparr> addressToModuleMap = [], addressToModuleMapMutex = False, accessLog = [] \<rparr>)
   in loaded P [m', m] g \<and> nonOverlapping P [m', m]
      \<and> functions m = [f1, f2] \<and> functions m' = [f3]
      \<and> fst (getJITFunctionByAddress g 0x1000) = Some f1
      \<and> fst (getJITFunctionByAddress g 0x103F) = Some f1
      \<and> fst (getJITFunctionByAddress g 0x1040) = Some f2
      \<and> fst (getJITFunctionByAddress g 0x1080) = None
      \<and> fst (getJITFunctionByAddress g 0x2800) = None
      \<and> fst (getJITFunctionByAddress g 0x3010) = Some f3"
proof -
  let ?P = "\<lparr> getPageSizeLog2 = 12, allocateVirtualPages = (\<lambda>n. 0x1000),
             commitVirtualPages = (\<lambda>b n. True), USE_WINDOWS_SEH = False \<rparr>"
  let ?f1 = "\<lparr> baseAddress = 0x1000, numBytes = 0x40, offsetToOpIndexMap = [] \<rparr>"
  let ?f2 = "\<lparr> baseAddress = 0x1040, numBytes = 0x40, offsetToOpIndexMap = [] \<rparr>"
  let ?f3 = "\<lparr> baseAddress = 0x3000, numBytes = 0x20, offsetToOpIndexMap = [] \<rparr>"
  let ?m = "addFunction ?f2 (addFunction ?f1
             \<lparr> memoryManager = (newModuleMemoryManager 1) \<lparr> imageBaseAddress := 0x1000 \<rparr>,
               functions = [], addressToFunctionMap = [] \<rparr>)"
  let ?m' = "addFunction ?f3
             \<lparr> memoryManager = (newModuleMemoryManager 1) \<lparr> imageBaseAddress := 0x3000 \<rparr>,
               functions = [], addressToFunctionMap = [] \<rparr>"
  let ?g = "registerModule ?P ?m (registerModule ?P ?m'
             \<lparr> addressToModuleMap = [], addressToModuleMapMutex = False, accessLog = [] \<rparr>)"
  have l: "loaded ?P [?m', ?m] ?g"
    by (simp add: loaded_def indexOf_def functionMapOf_def addFunction_def registerModule_def
        access_def imageEnd_def getNumImageBytes_def newModuleMemoryManager_def)
  have d: "nonOverlapping ?P [?m', ?m]"
    by (simp add: nonOverlapping_def separated_def imageRange_def functionRange_def
        addFunction_def getNumImageBytes_def newModuleMemoryManager_def)
  have fs: "functions ?m = [?f1, ?f2]" "functions ?m' = [?f3]" by (simp_all add: addFunction_def)
  have c1: "covers ?f1 0x1000" and c2: "covers ?f1 0x103F" and c3: "covers ?f2 0x1040"
    and c6: "covers ?f3 0x3010"
    by (simp_all add: covers_def)
  have c4: "\<forall>m \<in> set [?m', ?m]. \<forall>f \<in> set (functions m). \<not> covers f 0x1080"
    and c5: "\<forall>m \<in> set [?m', ?m]. \<forall>f \<in> set (functions m). \<not> covers f 0x2800"
    by (simp_all add: fs covers_def)
  note r = lookup_by_address [of ?P "[?m', ?m]" ?g, THEN conjunct1, rule_format, OF conjI [OF l d]]
  have r1: "fst (getJITFunctionByAddress ?g 0x1000) = Some ?f1"
    by (rule r [of ?m ?f1 "0x1000"]) (simp_all add: fs c1)
  have r2: "fst (getJITFunctionByAddress ?g 0x103F) = Some ?f1"
    by (rule r [of ?m ?f1 "0x103F"]) (simp_all add: fs c2)
  have r3: "fst (getJITFunctionByAddress ?g 0x1040) = Some ?f2"
    by (rule r [of ?m ?f2 "0x1040"]) (simp_all add: fs c3)
  have r4: "fst (getJITFunctionByAddress ?g 0x1080) = None"
    by (rule lookup_by_address [of ?P "[?m', ?m]" ?g "0x1080", THEN conjunct2, THEN conjunct1,
          THEN mp, OF conjI [OF l c4]])
  have r5: "fst (getJITFunctionByAddress ?g 0x2800) = None"
    by (rule lookup_by_address [of ?P "[?m', ?m]" ?g "0x2800", THEN conjunct2, THEN conjunct1,
          THEN mp, OF conjI [OF l c5]])
  have r6: "fst (getJITFunctionByAddress ?g 0x3010) = Some ?f3"
    by (rule r [of ?m' ?f3 "0x3010"]) (simp_all add: fs c6)
  show ?thesis unfolding Let_def by (intro conjI l d fs r1 r2 r3 r4 r5 r6)
qed

text \<open>
  Without the conditions the first part fails, in states built by the constructor. Nested
  functions: with \<open>fB = [0x1010, 0x1020)\<close> inside \<open>fA = [0x1000, 0x1040)\<close> the address \<open>0x1008\<close>
  lies in \<open>fA\<close>, but the first key above it is the end of \<open>fB\<close>. Equal ends: the empty function
  at \<open>0x1040\<close> takes the key of \<open>[0x1030, 0x1040)\<close>, which is not entered. A function outside
  its module's image \<open>[0x1000, 0x2000)\<close>. Nested images: \<open>[0x2000, 0x3000)\<close> inside
  \<open>[0x1000, 0x4000)\<close>. Equal image ends: an empty image at \<open>0x2000\<close> takes the key of
  \<open>[0x1000, 0x2000)\<close>.
\<close>

theorem loaded_function_not_found:
  "let P = \<lparr> getPageSizeLog2 = 12, allocateVirtualPages = (\<lambda>n. 0x1000),
             commitVirtualPages = (\<lambda>b n. True), USE_WINDOWS_SEH = False \<rparr>;
       g0 = \<lparr> addressToModuleMap = [], addressToModuleMapMutex = False, accessLog = [] \<rparr>;
       fA = \<lparr> baseAddress = 0x1000, numBytes = 0x40, offsetToOpIndexMap = [] \<rparr>;
       fB = \<lparr> baseAddress = 0x1010, numBytes = 0x10, offsetToOpIndexMap = [] \<rparr>;
       m1 = addFunction fB (addFunction fA
             \<lparr> memoryManager = (newModuleMemoryManager 1) \<lparr> imageBaseAddress := 0x1000 \<rparr>,
               functions = [], addressToFunctionMap = [] \<rparr>);
       z = \<lparr> baseAddress = 0x1040, numBytes = 0, offsetToOpIndexMap = [] \<rparr>;
       h = \<lparr> baseAddress = 0x1030, numBytes = 0x10, offsetToOpIndexMap = [] \<rparr>;
       m2 = addFunction h (addFunction z
             \<lparr> memoryManager = (newModuleMemoryManager 1) \<lparr> imageBaseAddress := 0x1000 \<rparr>,
               functions = [], addressToFunctionMap = [] \<rparr>);
       q = \<lparr> baseAddress = 0x3000, numBytes = 0x10, offsetToOpIndexMap = [] \<rparr>;
       m3 = addFunction q
             \<lparr> memoryManager = (newModuleMemoryManager 1) \<lparr> imageBaseAddress := 0x1000 \<rparr>,
               functions = [], addressToFunctionMap = [] \<rparr>;
       r = \<lparr> baseAddress = 0x2100, numBytes = 0x10, offsetToOpIndexMap = [] \<rparr>;
       m4 = addFunction r
             \<lparr> memoryManager = (newModuleMemoryManager 3) \<lparr> imageBaseAddress := 0x1000 \<rparr>,
               functions = [], addressToFunctionMap = [] \<rparr>;
       m5 = \<lparr> memoryManager = (newModuleMemoryManager 1) \<lparr> imageBaseAddress := 0x2000 \<rparr>,
               functions = [], addressToFunctionMap = [] \<rparr>;
       m6 = \<lparr> memoryManager = (newModuleMemoryManager 0) \<lparr> imageBaseAddress := 0x2000 \<rparr>,
               functions = [], addressToFunctionMap = [] \<rparr>;
       m7 = addFunction fA
             \<lparr> memoryManager = (newModuleMemoryManager 1) \<lparr> imageBaseAddress := 0x1000 \<rparr>,
               functions = [], addressToFunctionMap = [] \<rparr>
   in (loaded P [m1] (registerModule P m1 g0) \<and> fA \<in> set (functions m1) \<and> covers fA 0x1008
         \<and> fst (getJITFunctionByAddress (registerModule P m1 g0) 0x1008) = None)
      \<and> (loaded P [m2] (registerModule P m2 g0) \<and> h \<in> set (functions m2) \<and> covers h 0x1030
         \<and> fst (getJITFunctionByAddress (registerModule P m2 g0) 0x1030) = None)
      \<and> (loaded P [m3] (registerModule P m3 g0) \<and> q \<in> set (functions m3) \<and> covers q 0x3004
         \<and> fst (getJITFunctionByAddress (registerModule P m3 g0) 0x3004) = None)
      \<and> (loaded P [m4, m5] (registerModule P m5 (registerModule P m4 g0))
         \<and> r \<in> set (functions m4) \<and> covers r 0x2100
         \<and> fst (getJITFunctionByAddress (registerModule P m5 (registerModule P m4 g0)) 0x2100) = None)
      \<and> (loaded P [m6, m7] (registerModule P m7 (registerModule P m6 g0))
         \<and> fA \<in> set (functions m7) \<and> covers fA 0x1000
         \<and> fst (getJITFunctionByAddress (registerModule P m7 (registerModule P m6 g0)) 0x1000) = None)"
  by (simp add: Let_def loaded_def indexOf_def functionMapOf_def addFunction_def registerModule_def
      access_def imageEnd_def getNumImageBytes_def newModuleMemoryManager_def covers_def
      getJITFunctionByAddress_def lock_def unlock_def upper_bound_def)

section \<open>Section allocation\<close>

lemma and_not_mask_word: "(w :: 'a::len word) AND NOT (mask k) = push_bit k (drop_bit k w)"
  by (rule bit_eqI) (auto simp add: bit_simps)

lemma unat_clear_low: "unat ((w :: 'a::len word) AND NOT (2 ^ k - 1)) = unat w div 2 ^ k * 2 ^ k"
proof -
  have "unat w div 2 ^ k * 2 ^ k \<le> unat w" by simp
  also have "\<dots> < 2 ^ LENGTH('a)" by (rule unsigned_less)
  finally have lt: "unat w div 2 ^ k * 2 ^ k < 2 ^ LENGTH('a)" .
  have "w AND NOT (2 ^ k - 1) = push_bit k (drop_bit k w)"
    using and_not_mask_word [of w k] by (simp add: mask_eq_exp_minus_1)
  then have "unat (w AND NOT (2 ^ k - 1)) = unat (push_bit k (drop_bit k w))" by simp
  also have "\<dots> = take_bit LENGTH('a) (push_bit k (unat (drop_bit k w)))"
    by (simp add: unsigned_push_bit_eq)
  also have "unat (drop_bit k w) = unat w div 2 ^ k"
    by (subst unat_drop_bit_eq) (simp add: drop_bit_eq_div)
  also have "take_bit LENGTH('a) (push_bit k (unat w div 2 ^ k)) = unat w div 2 ^ k * 2 ^ k"
    using lt by (simp add: push_bit_eq_mult take_bit_nat_eq_self)
  finally show ?thesis .
qed

lemma pow_div_mult: "k \<le> n \<Longrightarrow> (2 :: nat) ^ n div 2 ^ k * 2 ^ k = 2 ^ n"
proof -
  assume "k \<le> n"
  then obtain d where "n = d + k" by (metis le_add_diff_inverse2)
  then show ?thesis by (simp add: power_add)
qed

lemma roundUp_no_wrap:
  assumes "k \<le> 64" and "roundUp x (2 ^ k) < 2 ^ 64"
  shows "x + 2 ^ k - 1 < (2 :: nat) ^ 64"
proof (rule ccontr)
  assume "\<not> x + 2 ^ k - 1 < (2 :: nat) ^ 64"
  then have le: "(2 :: nat) ^ 64 \<le> x + 2 ^ k - 1" by simp
  have "(2 :: nat) ^ 64 = 2 ^ 64 div 2 ^ k * 2 ^ k"
    using assms(1) by (rule pow_div_mult [symmetric])
  also have "\<dots> \<le> (x + 2 ^ k - 1) div 2 ^ k * 2 ^ k"
    by (rule mult_le_mono1) (rule div_le_mono, rule le)
  also have "\<dots> < 2 ^ 64" using assms(2) unfolding roundUp_def .
  finally show False by simp
qed

lemma unat_align:
  assumes "k < 64" and "roundUp (unat sz) (2 ^ k) < 2 ^ 64"
  shows "unat (align sz (2 ^ k)) = roundUp (unat sz) (2 ^ k)"
proof -
  from assms have nw: "unat sz + 2 ^ k - 1 < (2 :: nat) ^ 64"
    by (intro roundUp_no_wrap) simp_all
  have "(1 :: nat) \<le> unat sz + 2 ^ k" by (simp add: trans_le_add2)
  then have "sz + 2 ^ k - 1 = (word_of_nat (unat sz + 2 ^ k - 1) :: Uptr)"
    using of_nat_diff [of 1 "unat sz + 2 ^ k", where 'a = Uptr] by simp
  then have "unat (sz + 2 ^ k - 1) = unat (word_of_nat (unat sz + 2 ^ k - 1) :: Uptr)" by simp
  also have "\<dots> = unat sz + 2 ^ k - 1"
    using nw by (simp add: unat_of_nat take_bit_nat_eq_self)
  finally have "unat (sz + 2 ^ k - 1) = unat sz + 2 ^ k - 1" .
  then show ?thesis by (simp add: align_def unat_clear_low roundUp_def)
qed

lemma unat_plus_pow_minus_1:
  assumes "unat (v :: Uptr) + 2 ^ k - 1 < 2 ^ 64"
  shows "unat (v + 2 ^ k - 1) = unat v + 2 ^ k - 1"
proof -
  have "(1 :: nat) \<le> unat v + 2 ^ k" by (simp add: trans_le_add2)
  then have "v + 2 ^ k - 1 = (word_of_nat (unat v + 2 ^ k - 1) :: Uptr)"
    using of_nat_diff [of 1 "unat v + 2 ^ k", where 'a = Uptr] by simp
  then have "unat (v + 2 ^ k - 1) = unat (word_of_nat (unat v + 2 ^ k - 1) :: Uptr)" by simp
  also have "\<dots> = unat v + 2 ^ k - 1"
    using assms by (simp add: unat_of_nat take_bit_nat_eq_self)
  finally show ?thesis .
qed

lemma unat_shrAndRoundUp:
  assumes "unat v + 2 ^ unat shift - 1 < 2 ^ 64"
  shows "unat (shrAndRoundUp v shift) = (unat v + 2 ^ unat shift - 1) div 2 ^ unat shift"
proof -
  have "unat (shrAndRoundUp v shift) = unat (v + 2 ^ unat shift - 1) div 2 ^ unat shift"
    unfolding shrAndRoundUp_def
    by (subst unat_drop_bit_eq) (simp add: drop_bit_eq_div push_bit_of_1)
  then show ?thesis using assms by (simp add: unat_plus_pow_minus_1)
qed

lemma unat_push_bit_pages:
  assumes "unat (n :: Uptr) * 2 ^ k < 2 ^ 64"
  shows "unat (push_bit k n) = unat n * 2 ^ k"
proof -
  have "unat (push_bit k n) = take_bit LENGTH(64) (push_bit k (unat n))"
    by (rule unsigned_push_bit_eq)
  also have "\<dots> = take_bit 64 (unat n * 2 ^ k)" by (simp add: push_bit_eq_mult)
  also have "\<dots> = unat n * 2 ^ k" using assms by (simp add: take_bit_nat_eq_self)
  finally show ?thesis .
qed

text \<open>
  C4, with the size rounded as the code rounds it. For a power-of-two alignment \<open>a = 2 ^ k\<close> and
  a section with cursor \<open>c\<close>, as long as the numbers stay below \<open>2 ^ 64\<close>: \<^verbatim>\<open>allocateBytes\<close>
  fails with "didn't reserve enough space in section" exactly when (\<open>c\<close> rounded up to \<open>a\<close>) +
  (\<open>n\<close> rounded up to \<open>a\<close>) exceeds the reserved pages times the page size; otherwise it returns
  the section base + (\<open>c\<close> rounded up to \<open>a\<close>), and that sum is the new cursor.
\<close>

theorem allocateBytes_cursor:
  assumes "alignment = 2 ^ k" and "k < 64"
    and "roundUp (unat (numCommittedBytes section)) (2 ^ k) + roundUp (unat nBytes) (2 ^ k) < 2 ^ 64"
    and "unat (numPages section) * 2 ^ unat (getPageSizeLog2 P) < 2 ^ 64"
  shows "allocateBytes P nBytes alignment section =
     (if unat (numPages section) * 2 ^ unat (getPageSizeLog2 P)
           < roundUp (unat (numCommittedBytes section)) (2 ^ k) + roundUp (unat nBytes) (2 ^ k)
      then Inl (Fatal ''didn't reserve enough space in section'')
      else Inr (Section.baseAddress section
                  + word_of_nat (roundUp (unat (numCommittedBytes section)) (2 ^ k)),
                section \<lparr> numCommittedBytes :=
                  word_of_nat (roundUp (unat (numCommittedBytes section)) (2 ^ k)
                     + roundUp (unat nBytes) (2 ^ k)) \<rparr>))"
proof -
  let ?c = "roundUp (unat (numCommittedBytes section)) (2 ^ k)"
  let ?n = "roundUp (unat nBytes) (2 ^ k)"
  from assms(3) have "?c < 2 ^ 64" "?n < 2 ^ 64" by simp_all
  with assms(2) have uc: "unat (align (numCommittedBytes section) (2 ^ k)) = ?c"
    and un: "unat (align nBytes (2 ^ k)) = ?n"
    by (simp_all add: unat_align)
  have usum: "unat (align (numCommittedBytes section) (2 ^ k) + align nBytes (2 ^ k)) = ?c + ?n"
    using assms(3) unat_add_lem [of "align (numCommittedBytes section) (2 ^ k)" "align nBytes (2 ^ k)"]
    by (simp add: uc un)
  have wc: "align (numCommittedBytes section) (2 ^ k) = word_of_nat ?c"
    using uc by (metis of_nat_unat ucast_id)
  have wn: "align nBytes (2 ^ k) = word_of_nat ?n"
    using un by (metis of_nat_unat ucast_id)
  have up: "unat (push_bit (unat (getPageSizeLog2 P)) (numPages section))
      = unat (numPages section) * 2 ^ unat (getPageSizeLog2 P)"
    using assms(4) by (rule unat_push_bit_pages)
  have cmp: "(push_bit (unat (getPageSizeLog2 P)) (numPages section)
       < align (numCommittedBytes section) (2 ^ k) + align nBytes (2 ^ k))
     = (unat (numPages section) * 2 ^ unat (getPageSizeLog2 P) < ?c + ?n)"
    by (simp only: word_less_nat_alt up usum)
  show ?thesis
    unfolding allocateBytes_def assms(1) Let_def
    by (simp add: cmp) (simp add: wc wn)
qed

text \<open>
  Page size 4096, one reserved page, cursor 5, alignment 16: three bytes are placed at offset
  16 and move the cursor to 32; 4090 bytes do not fit.
\<close>

theorem allocateBytes_cursor_witness:
  "let P = \<lparr> getPageSizeLog2 = 12, allocateVirtualPages = (\<lambda>n. 0x10000),
             commitVirtualPages = (\<lambda>b n. True), USE_WINDOWS_SEH = False \<rparr>;
       section = \<lparr> Section.baseAddress = 0x10000, numPages = 1, numCommittedBytes = 5 \<rparr>
   in allocateBytes P 3 16 section = Inr (0x10010, section \<lparr> numCommittedBytes := 32 \<rparr>)
      \<and> allocateBytes P 4090 16 section = Inl (Fatal ''didn't reserve enough space in section'')"
proof -
  let ?P = "\<lparr> getPageSizeLog2 = 12, allocateVirtualPages = (\<lambda>n. 0x10000),
             commitVirtualPages = (\<lambda>b n. True), USE_WINDOWS_SEH = False \<rparr>"
  let ?s = "\<lparr> Section.baseAddress = 0x10000, numPages = 1, numCommittedBytes = 5 \<rparr>"
  have r: "roundUp 5 16 = 16" "roundUp 3 16 = 16" "roundUp 4090 16 = 4096"
    by (simp_all add: roundUp_def)
  have a: "allocateBytes ?P 3 16 ?s = Inr (0x10010, ?s \<lparr> numCommittedBytes := 32 \<rparr>)"
    using allocateBytes_cursor [of 16 4 ?s 3 ?P] by (simp add: r)
  have b: "allocateBytes ?P 4090 16 ?s = Inl (Fatal ''didn't reserve enough space in section'')"
    using allocateBytes_cursor [of 16 4 ?s 4090 ?P] by (simp add: r)
  show ?thesis unfolding Let_def by (intro conjI a b)
qed

text \<open>
  The new cursor is not (\<open>c\<close> rounded up to \<open>a\<close>) + \<open>n\<close>: one byte at alignment 16 on an empty
  section moves the cursor to 16, not to 1.
\<close>

theorem allocateBytes_rounds_size:
  "let P = \<lparr> getPageSizeLog2 = 12, allocateVirtualPages = (\<lambda>n. 0x10000),
             commitVirtualPages = (\<lambda>b n. True), USE_WINDOWS_SEH = False \<rparr>;
       section = \<lparr> Section.baseAddress = 0x10000, numPages = 1, numCommittedBytes = 0 \<rparr>
   in allocateBytes P 1 16 section = Inr (0x10000, section \<lparr> numCommittedBytes := 16 \<rparr>)
      \<and> align (numCommittedBytes section) 16 + 1 = 1
      \<and> (16 :: Uptr) \<noteq> 1"
  by (simp add: Let_def allocateBytes_def align_def)

section \<open>Reserving the image\<close>

text \<open>
  C6. With page size \<open>2 ^ L\<close>, and as long as the numbers stay below \<open>2 ^ 64\<close>: after
  \<^verbatim>\<open>reserveAllocationSpace\<close> each section's page count is \<open>\<lceil>bytes / page_size\<rceil>\<close>, the code bytes
  taken 32 larger when \<^verbatim>\<open>USE_WINDOWS_SEH\<close> is set; the image has the sum of the three counts; when
  that sum is not zero the image base is the range \<^verbatim>\<open>allocateVirtualPages\<close> returned for that many
  pages, is not null, and the range was committed; and the section bases are consecutive: the
  code section at the image base, the read-only section \<open>code_pages \<times> page_size\<close> after it, the
  read-write section \<open>ro_pages \<times> page_size\<close> after that (when nothing is reserved, on a fresh
  manager, all are null).
\<close>

theorem reserveAllocationSpace_layout:
  assumes L: "L = unat (getPageSizeLog2 P)"
    and cb: "codeBytes = (if USE_WINDOWS_SEH P then unat nCode + 32 else unat nCode)"
    and nw: "codeBytes + 2 ^ L - 1 < 2 ^ 64" "unat nRO + 2 ^ L - 1 < 2 ^ 64"
      "unat nRW + 2 ^ L - 1 < 2 ^ 64"
    and tp: "(codeBytes + 2 ^ L - 1) div 2 ^ L + (unat nRO + 2 ^ L - 1) div 2 ^ L
               + (unat nRW + 2 ^ L - 1) div 2 ^ L < 2 ^ 64"
    and r: "reserveAllocationSpace P m nCode codeAlignment nRO readOnlyAlignment nRW
              readWriteAlignment = Inr m'"
  shows "unat (numPages (codeSection m')) = (codeBytes + 2 ^ L - 1) div 2 ^ L
    \<and> unat (numPages (readOnlySection m')) = (unat nRO + 2 ^ L - 1) div 2 ^ L
    \<and> unat (numPages (readWriteSection m')) = (unat nRW + 2 ^ L - 1) div 2 ^ L
    \<and> unat (numAllocatedImagePages m')
        = unat (numPages (codeSection m')) + unat (numPages (readOnlySection m'))
          + unat (numPages (readWriteSection m'))
    \<and> (numAllocatedImagePages m' \<noteq> 0 \<longrightarrow>
          imageBaseAddress m' = allocateVirtualPages P (numAllocatedImagePages m')
          \<and> imageBaseAddress m' \<noteq> 0
          \<and> commitVirtualPages P (imageBaseAddress m') (numAllocatedImagePages m'))
    \<and> (numAllocatedImagePages m' \<noteq> 0 \<or> (\<exists>u. m = newModuleMemoryManager u) \<longrightarrow>
          Section.baseAddress (codeSection m') = imageBaseAddress m'
          \<and> Section.baseAddress (readOnlySection m')
              = Section.baseAddress (codeSection m') + numPages (codeSection m') * 2 ^ L
          \<and> Section.baseAddress (readWriteSection m')
              = Section.baseAddress (readOnlySection m') + numPages (readOnlySection m') * 2 ^ L)"
proof -
  let ?code = "if USE_WINDOWS_SEH P then nCode + 32 else nCode"
  let ?cp = "shrAndRoundUp ?code (getPageSizeLog2 P)"
  let ?rp = "shrAndRoundUp nRO (getPageSizeLog2 P)"
  let ?wp = "shrAndRoundUp nRW (getPageSizeLog2 P)"
  have one: "(1 :: nat) \<le> 2 ^ L" by simp
  have "unat nCode + 32 < 2 ^ 64" if "USE_WINDOWS_SEH P"
    using nw(1) that one unfolding cb by (simp del: One_nat_def one_le_power)
  then have uc: "unat ?code = codeBytes"
    using unat_add_lem [of nCode 32] by (simp add: cb)
  have p1: "unat ?cp = (codeBytes + 2 ^ L - 1) div 2 ^ L"
    using nw(1) unat_shrAndRoundUp [of ?code "getPageSizeLog2 P"] unfolding uc L by simp
  have p2: "unat ?rp = (unat nRO + 2 ^ L - 1) div 2 ^ L"
    using nw(2) unat_shrAndRoundUp [of nRO "getPageSizeLog2 P"] unfolding L by simp
  have p3: "unat ?wp = (unat nRW + 2 ^ L - 1) div 2 ^ L"
    using nw(3) unat_shrAndRoundUp [of nRW "getPageSizeLog2 P"] unfolding L by simp
  have n1: "numPages (codeSection m') = ?cp" and n2: "numPages (readOnlySection m') = ?rp"
    and n3: "numPages (readWriteSection m') = ?wp"
    and tot: "numAllocatedImagePages m' = ?cp + ?rp + ?wp"
    using r by (auto simp add: reserveAllocationSpace_def Let_def split: if_splits)
  have alloc: "imageBaseAddress m' = allocateVirtualPages P (numAllocatedImagePages m')
          \<and> imageBaseAddress m' \<noteq> 0
          \<and> commitVirtualPages P (imageBaseAddress m') (numAllocatedImagePages m')"
    if "numAllocatedImagePages m' \<noteq> 0"
    using r that by (auto simp add: reserveAllocationSpace_def Let_def split: if_splits)
  have "unat (?cp + ?rp) = unat ?cp + unat ?rp"
    using tp unat_add_lem [of ?cp ?rp] by (simp only: p1 p2 p3) simp
  moreover have "unat (?cp + ?rp + ?wp) = unat (?cp + ?rp) + unat ?wp"
    using tp unat_add_lem [of "?cp + ?rp" ?wp] calculation by (simp only: p1 p2 p3) simp
  ultimately have usum: "unat (?cp + ?rp + ?wp) = unat ?cp + unat ?rp + unat ?wp" by simp
  have zero: "?cp = 0 \<and> ?rp = 0" if "?cp + ?rp + ?wp = 0"
  proof -
    from that have "unat (?cp + ?rp + ?wp) = 0" by simp
    with usum have "unat ?cp = 0" "unat ?rp = 0" by simp_all
    then show ?thesis by (simp only: unsigned_eq_0_iff)
  qed
  have bases: "Section.baseAddress (codeSection m') = imageBaseAddress m'
          \<and> Section.baseAddress (readOnlySection m')
              = Section.baseAddress (codeSection m') + numPages (codeSection m') * 2 ^ L
          \<and> Section.baseAddress (readWriteSection m')
              = Section.baseAddress (readOnlySection m') + numPages (readOnlySection m') * 2 ^ L"
    if "numAllocatedImagePages m' \<noteq> 0 \<or> (\<exists>u. m = newModuleMemoryManager u)"
  proof (cases "?cp + ?rp + ?wp = 0")
    case False
    with r show ?thesis
      by (auto simp add: reserveAllocationSpace_def Let_def L push_bit_eq_mult split: if_splits)
  next
    case True
    with that tot obtain u where m: "m = newModuleMemoryManager u" by auto
    from zero [OF True] have z: "?cp = 0" "?rp = 0" by simp_all
    from r True have "m' = m \<lparr> codeSection := (codeSection m) \<lparr> numPages := ?cp \<rparr>,
                   readOnlySection := (readOnlySection m) \<lparr> numPages := ?rp \<rparr>,
                   readWriteSection := (readWriteSection m) \<lparr> numPages := ?wp \<rparr>,
                   numAllocatedImagePages := ?cp + ?rp + ?wp \<rparr>"
      by (simp add: reserveAllocationSpace_def Let_def split: if_splits)
    then show ?thesis unfolding z m by (simp add: newModuleMemoryManager_def)
  qed
  have utot: "unat (numAllocatedImagePages m') = unat ?cp + unat ?rp + unat ?wp"
    by (simp only: tot usum)
  show ?thesis
    using p1 p2 p3 utot alloc bases by (simp only: n1 n2 n3) blast
qed

text \<open>
  Page size 4096 with \<^verbatim>\<open>USE_WINDOWS_SEH\<close>: 4090 + 32 code bytes take two pages, 8 read-only bytes
  one page, no read-write bytes none.
\<close>

theorem reserveAllocationSpace_layout_witness:
  "case reserveAllocationSpace
          \<lparr> getPageSizeLog2 = 12, allocateVirtualPages = (\<lambda>n. 0x10000),
            commitVirtualPages = (\<lambda>b n. True), USE_WINDOWS_SEH = True \<rparr>
          (newModuleMemoryManager 7) 4090 16 8 8 0 1 of
     Inl e \<Rightarrow> False
   | Inr m' \<Rightarrow>
       unat (numPages (codeSection m')) = 2 \<and> unat (numPages (readOnlySection m')) = 1
       \<and> unat (numPages (readWriteSection m')) = 0 \<and> unat (numAllocatedImagePages m') = 3
       \<and> imageBaseAddress m' = 0x10000
       \<and> Section.baseAddress (codeSection m') = 0x10000
       \<and> Section.baseAddress (readOnlySection m') = 0x12000
       \<and> Section.baseAddress (readWriteSection m') = 0x13000"
proof -
  let ?P = "\<lparr> getPageSizeLog2 = 12, allocateVirtualPages = (\<lambda>n. 0x10000),
            commitVirtualPages = (\<lambda>b n. True), USE_WINDOWS_SEH = True \<rparr>"
  have "\<exists>m'. reserveAllocationSpace ?P (newModuleMemoryManager 7) 4090 16 8 8 0 1 = Inr m'"
    by (simp add: reserveAllocationSpace_def shrAndRoundUp_def Let_def)
  then obtain m' where r: "reserveAllocationSpace ?P (newModuleMemoryManager 7) 4090 16 8 8 0 1 = Inr m'"
    by blast
  note t = reserveAllocationSpace_layout [where L = 12 and codeBytes = 4122, OF _ _ _ _ _ _ r]
  have u: "unat (numPages (codeSection m')) = 2" "unat (numPages (readOnlySection m')) = 1"
    "unat (numPages (readWriteSection m')) = 0" "unat (numAllocatedImagePages m') = 3"
    using t by simp_all
  have w: "numPages (codeSection m') = 2" "numPages (readOnlySection m') = 1"
    "numAllocatedImagePages m' \<noteq> 0"
    using u by (simp_all add: word_unat_eq_iff)
  have b: "imageBaseAddress m' = 0x10000
       \<and> Section.baseAddress (codeSection m') = 0x10000
       \<and> Section.baseAddress (readOnlySection m') = 0x12000
       \<and> Section.baseAddress (readWriteSection m') = 0x13000"
    using t w(3) by (simp add: w(1,2))
  show ?thesis unfolding r using u b by simp
qed

section \<open>The mutex of the address index\<close>

text \<open>
  C9. The log records, for each access to the global map, whether the mutex was held. The
  destructor and \<^verbatim>\<open>getJITFunctionByAddress\<close> add an access with the mutex held. The
  insertion in the constructor adds an access with the mutex as it found it and does not take
  it: from a state in which no thread holds the mutex, the map is changed without the lock.
\<close>

theorem index_access_locking:
  "accessLog (registerModule P m g) = accessLog g @ [addressToModuleMapMutex g]
   \<and> addressToModuleMapMutex (registerModule P m g) = addressToModuleMapMutex g
   \<and> accessLog (registerModule P m
         \<lparr> addressToModuleMap = [], addressToModuleMapMutex = False, accessLog = [] \<rparr>) = [False]
   \<and> accessLog (destroyModule P m g) = accessLog g @ [True]
   \<and> accessLog (snd (getJITFunctionByAddress g a)) = accessLog g @ [True]"
  by (simp add: registerModule_def destroyModule_def getJITFunctionByAddress_def access_def
      lock_def unlock_def Let_def split: option.splits prod.splits)

end
